theory Spec2Isabelle
  imports Main
begin

section \<open>Python strings and numbers used by the server\<close>

text \<open>
  The server (\<^verbatim>\<open>Server/src/main.py\<close>, \<^verbatim>\<open>detect.py\<close>, \<^verbatim>\<open>local_test.py\<close>) is
  embedded function by function. Python \<^verbatim>\<open>str\<close> is \<^typ>\<open>string\<close>, Python's unbounded
  \<^verbatim>\<open>int\<close> is \<^typ>\<open>int\<close>, a \<^verbatim>\<open>dict\<close> is a map, an exception is the left summand
  of a result.
\<close>

datatype error =
    KeyError
  | ValueError
  | UnidentifiedImageError
  | FileNotFoundError
  | FileExistsError
  | IsADirectoryError
  | PermissionError
  | CaptionError
  | DetectorError
  | SaveError
  | ConnectionError

text \<open>\<^verbatim>\<open>str(n)\<close> for an integer: decimal digits, a minus sign in front of a negative.\<close>

definition digit_char :: "nat \<Rightarrow> char" where
  "digit_char d = ''0123456789'' ! d"

fun str_nat :: "nat \<Rightarrow> string" where
  "str_nat n = (if n < 10 then [digit_char n] else str_nat (n div 10) @ [digit_char (n mod 10)])"

declare str_nat.simps [simp del]

definition str :: "int \<Rightarrow> string" where
  "str i = (if i < 0 then CHR ''-'' # str_nat (nat (- i)) else str_nat (nat i))"

section \<open>detect.py: labelling the detections of one frame\<close>

type_synonym box = "int list"

text \<open>
  One row of \<^verbatim>\<open>results[0].boxes\<close>: the tensors \<^verbatim>\<open>boxes.cls\<close>, \<^verbatim>\<open>boxes.xywh\<close> and
  \<^verbatim>\<open>boxes.xyxy\<close> are views of the same rows, so a frame's boxes are a list of rows.
  Coordinates are passed through and never computed with.
\<close>

record det =
  cls :: int
  xywh :: box
  xyxy :: box

record yolo_result =
  boxes :: "det list"
  names :: "int \<rightharpoonup> string"

type_synonym obj = "string \<times> box"

text \<open>
  \<^verbatim>\<open>uniq_classes, counts = np.unique(detected_classes, return_counts=True)\<close>:
  the sorted distinct values and how often each occurs.
\<close>

definition np_unique :: "int list \<Rightarrow> int list \<times> int list" where
  "np_unique xs = (let us = sort (remdups xs) in (us, map (\<lambda>u. int (count_list xs u)) us))"

text \<open>\<^verbatim>\<open>uniq_dict = {u: c for u, c in zip(uniq_classes, counts)}\<close>\<close>

definition uniq_dict_of :: "int list \<Rightarrow> (int \<rightharpoonup> int)" where
  "uniq_dict_of detected_classes =
     (let (uniq_classes, counts) = np_unique detected_classes
      in map_of (zip uniq_classes counts))"

text \<open>
  The loop of lines 31 to 35: \<^verbatim>\<open>objects.append([names[c] + '_' + str(uniq_dict[c]), box])\<close>
  then \<^verbatim>\<open>uniq_dict[c] -= 1\<close>. A class missing from \<^verbatim>\<open>names\<close> or from
  \<^verbatim>\<open>uniq_dict\<close> raises \<^verbatim>\<open>KeyError\<close>.
\<close>

fun label_loop ::
  "(int \<rightharpoonup> string) \<Rightarrow> det list \<Rightarrow> (int \<rightharpoonup> int) \<Rightarrow> obj list \<Rightarrow> error + obj list" where
  "label_loop nms [] uniq_dict objects = Inr objects"
| "label_loop nms (d # ds) uniq_dict objects =
     (case nms (cls d) of
        None \<Rightarrow> Inl KeyError
      | Some nm \<Rightarrow>
          (case uniq_dict (cls d) of
             None \<Rightarrow> Inl KeyError
           | Some c \<Rightarrow>
               label_loop nms ds (uniq_dict(cls d \<mapsto> c - 1))
                 (objects @ [(nm @ ''_'' @ str c, xywh d)])))"

definition label_objects :: "yolo_result \<Rightarrow> error + obj list" where
  "label_objects r =
     (let detected_classes = map cls (boxes r);
          uniq_dict = uniq_dict_of detected_classes
      in label_loop (names r) (boxes r) uniq_dict [])"

section \<open>The caption stream (local_test.py)\<close>

text \<open>
  The pattern's \<^verbatim>\<open>$\<close> matches at the end of the string and just before a newline
  that ends the string.
\<close>

definition at_dollar :: "string \<Rightarrow> bool" where
  "at_dollar rest = (rest = [] \<or> rest = [CHR 0x0A])"

text \<open>
  \<^verbatim>\<open>re.sub("<$|END$", "", new_text)\<close>: scanning from the left, at each position the
  alternatives are tried in order; a match is dropped and scanning goes on after it.
\<close>

fun re_sub :: "string \<Rightarrow> string" where
  "re_sub [] = []"
| "re_sub (c # cs) =
     (if c = CHR ''<'' \<and> at_dollar cs then re_sub cs
      else if take 3 (c # cs) = ''END'' \<and> at_dollar (drop 3 (c # cs))
           then re_sub (drop 3 (c # cs))
      else c # re_sub cs)"

text \<open>\<^verbatim>\<open>s.strip(chars)\<close>: drops leading and trailing characters that occur in \<^verbatim>\<open>chars\<close>.\<close>

definition strip :: "string \<Rightarrow> string \<Rightarrow> string" where
  "strip chars s =
     rev (dropWhile (\<lambda>c. c \<in> set chars) (rev (dropWhile (\<lambda>c. c \<in> set chars) s)))"

text \<open>
  The generator \<^verbatim>\<open>answer_question\<close>, lines 93 to 97, as the list of the values it yields;
  the argument is the list of fragments the streamer hands out.
\<close>

fun answer_question_from :: "string \<Rightarrow> string list \<Rightarrow> string list" where
  "answer_question_from buffer [] = []"
| "answer_question_from buffer (new_text # streamer) =
     (let clean_text = re_sub new_text;
          buffer' = buffer @ clean_text
      in strip ''<END'' buffer' # answer_question_from buffer' streamer)"

definition answer_question :: "string list \<Rightarrow> string list" where
  "answer_question streamer = answer_question_from [] streamer"

text \<open>
  main.py, lines 86 to 90: \<^verbatim>\<open>buffer = ""\<close>, then for each yielded text
  \<^verbatim>\<open>if len(text) > 0: buffer = text\<close>; the answer is the buffer after the loop.
\<close>

definition final_answer :: "string list \<Rightarrow> string" where
  "final_answer texts = foldl (\<lambda>buffer text. if length text > 0 then text else buffer) [] texts"

section \<open>The process state and the collaborators\<close>

type_synonym bytes = "nat list"
type_synonym pixels = "nat list"
type_synonym addr = nat

datatype json = JString string | JInt int | JArray "json list" | JObject "(string \<times> json) list"

text \<open>A \<^verbatim>\<open>requests.post\<close>: the URL, the form fields and the file sent as \<^verbatim>\<open>image\<close>.\<close>

record request =
  url :: string
  data :: "(string \<times> json) list"
  image :: bytes

text \<open>The arguments of one \<^verbatim>\<open>executor.submit\<close>.\<close>

datatype job = SendAnswer string string addr | DetectObject string addr

datatype outcome = Returned | Raised error

text \<open>
  Everything the handler and its tasks can change: the files on disk, how many ids have
  been drawn, the pixel buffers of the image objects and arrays (by address), the lines
  printed, the executor of the request being served (the tasks submitted to it and how
  each ended: the executor keeps a task's exception in its future, and nothing reads
  it), and the requests that reached the downstream service.
\<close>

record world =
  files :: "string \<rightharpoonup> bytes"
  uuids_drawn :: nat
  heap :: "addr \<rightharpoonup> pixels"
  next_addr :: addr
  stdout :: "string list"
  submitted :: "job list"
  futures :: "(job \<times> outcome) list"
  sink :: "request list"

text \<open>
  What the server calls and does not define: the operating system's answer to
  \<^verbatim>\<open>os.makedirs(dir, exist_ok=True)\<close> and to \<^verbatim>\<open>open(path, "wb")\<close> (the error it raises,
  \<open>None\<close> when it goes through: a path in a directory that does not exist is refused
  with \<^verbatim>\<open>FileNotFoundError\<close>), the id source, the image decoder, the captioning model's
  stream of fragments, the detector, the annotator's drawing, the JPEG encoder and the
  downstream service (\<open>None\<close> where the call raises; for the service \<open>Some\<close> of the
  HTTP status it answers with).
\<close>

record env =
  os_makedirs :: "string \<Rightarrow> error option"
  os_open_wb :: "string \<Rightarrow> error option"
  uuid_source :: "nat \<Rightarrow> string"
  pil_decode :: "bytes \<Rightarrow> pixels option"
  moondream_stream :: "pixels \<Rightarrow> string \<Rightarrow> string list option"
  yolo_predict :: "pixels \<Rightarrow> yolo_result list option"
  draw_box_label :: "pixels \<Rightarrow> box \<Rightarrow> string \<Rightarrow> nat \<Rightarrow> pixels"
  jpeg_encode :: "pixels \<Rightarrow> bytes option"
  sink_post :: "request \<Rightarrow> nat option"

definition print :: "string \<Rightarrow> world \<Rightarrow> world" where
  "print line w = w\<lparr>stdout := stdout w @ [line]\<rparr>"

text \<open>A new image object or array: the next free address holds the pixels.\<close>

definition alloc :: "pixels \<Rightarrow> world \<Rightarrow> addr \<times> world" where
  "alloc px w = (next_addr w, w\<lparr>heap := (heap w)(next_addr w \<mapsto> px), next_addr := Suc (next_addr w)\<rparr>)"

text \<open>\<^verbatim>\<open>image.save(buffer, format='JPEG')\<close> reads the pixels behind the object.\<close>

definition save_jpeg :: "env \<Rightarrow> addr \<Rightarrow> world \<Rightarrow> error + bytes" where
  "save_jpeg e a w =
     (case heap w a of
        None \<Rightarrow> Inl SaveError
      | Some px \<Rightarrow> (case jpeg_encode e px of None \<Rightarrow> Inl SaveError | Some b \<Rightarrow> Inr b))"

text \<open>
  \<^verbatim>\<open>requests.post\<close>: a request the service cannot be reached for raises; any answer,
  whatever its status, returns.
\<close>

definition requests_post :: "env \<Rightarrow> request \<Rightarrow> world \<Rightarrow> (error + nat) \<times> world" where
  "requests_post e r w =
     (case sink_post e r of
        None \<Rightarrow> (Inl ConnectionError, w)
      | Some status \<Rightarrow> (Inr status, w\<lparr>sink := sink w @ [r]\<rparr>))"

section \<open>The detector call (detect.py)\<close>

text \<open>
  The loop of lines 47 to 49 draws each label on the array the annotator was given
  (\<^verbatim>\<open>pil=False\<close>: it draws in place), with \<^verbatim>\<open>results[0].boxes.xyxy[i]\<close> and the
  colour of index \<^verbatim>\<open>i\<close>.
\<close>

definition annotate :: "env \<Rightarrow> det list \<Rightarrow> obj list \<Rightarrow> pixels \<Rightarrow> pixels" where
  "annotate e bxs objects px =
     foldl (\<lambda>im (i, (name, bbox)). draw_box_label e im (xyxy (bxs ! i)) name i) px
       (enumerate 0 objects)"

text \<open>
  What \<^verbatim>\<open>predict_object\<close> returns: the bare \<^verbatim>\<open>[]\<close> of line 22, or the pair of
  line 53, whose image is the array that was passed in. The array it is called with
  always holds pixels; the branch for an address that holds nothing is there because the
  heap is a map.
\<close>

datatype predicted = EmptyList | Pair "obj list" addr

definition predict_object :: "env \<Rightarrow> addr \<Rightarrow> world \<Rightarrow> (error + predicted) \<times> world" where
  "predict_object e img w0 =
     (let w1 = print ''predicting object'' w0
      in case heap w1 img of
           None \<Rightarrow> (Inl DetectorError, w1)
         | Some px \<Rightarrow>
             (case yolo_predict e px of
                None \<Rightarrow> (Inl DetectorError, w1)
              | Some results \<Rightarrow>
                  (case results of
                     [] \<Rightarrow> (Inr EmptyList, print ''WARNING! No object detected by YOLO.'' w1)
                   | r # _ \<Rightarrow>
                       (case label_objects r of
                          Inl err \<Rightarrow> (Inl err, w1)
                        | Inr objects \<Rightarrow>
                            (let w2 = print ''Done predicting object'' w1;
                                 w3 = w2\<lparr>heap := (heap w2)(img \<mapsto> annotate e (boxes r) objects px)\<rparr>
                             in (Inr (Pair objects img), w3))))))"

section \<open>main.py: the two tasks\<close>

text \<open>
  A task is the list of its steps, each run in one piece by the thread that runs the
  task; a step reads and writes the task's local variables and the process state, and
  may raise, which ends the task.
\<close>

type_synonym 'l step = "'l \<Rightarrow> world \<Rightarrow> (error + 'l) \<times> world"

definition caption_request :: "string \<Rightarrow> string \<Rightarrow> bytes \<Rightarrow> request" where
  "caption_request ident caption bytes_buffer =
     \<lparr>url = ''http://localhost:3000/newTick'',
      data = [(''caption'', JString caption), (''id'', JString ident)],
      image = bytes_buffer\<rparr>"

text \<open>\<^verbatim>\<open>send_answer(id, caption, latest_image)\<close>; the local variable is \<^verbatim>\<open>bytes_buffer\<close>.\<close>

definition send_answer :: "env \<Rightarrow> string \<Rightarrow> string \<Rightarrow> addr \<Rightarrow> bytes step list" where
  "send_answer e ident caption latest_image =
     [\<lambda>bytes_buffer w.
        (Inr bytes_buffer, print (''Sending caption for ID '' @ ident @ '': '' @ caption) w),
      \<lambda>bytes_buffer w.
        (case save_jpeg e latest_image w of
           Inl err \<Rightarrow> (Inl err, w)
         | Inr b \<Rightarrow> (Inr b, w)),
      \<lambda>bytes_buffer w.
        (case requests_post e (caption_request ident caption bytes_buffer) w of
           (Inl err, w') \<Rightarrow> (Inl err, w')
         | (Inr status, w') \<Rightarrow> (Inr bytes_buffer, w'))]"

record detect_locals =
  img_np :: addr
  detected_objects :: "obj list"
  annotated_image :: addr
  new_img :: addr
  image_bytes :: bytes
  response_status :: nat

definition no_locals :: detect_locals where
  "no_locals = \<lparr>img_np = 0, detected_objects = [], annotated_image = 0, new_img = 0,
                  image_bytes = [], response_status = 0\<rparr>"

text \<open>
  Lines 50 to 53: the objects as \<^verbatim>\<open>{"name": ..., "xywh": [...]}\<close>, wrapped as
  \<^verbatim>\<open>{"detected_objects": objects}\<close>; the value stands for the text \<^verbatim>\<open>json.dumps\<close>
  writes.
\<close>

definition detected_objects_json :: "obj list \<Rightarrow> json" where
  "detected_objects_json objs =
     JObject [(''detected_objects'',
       JArray (map (\<lambda>obj. JObject [(''name'', JString (fst obj)),
                                     (''xywh'', JArray (map JInt (snd obj)))]) objs))]"

definition detection_request :: "string \<Rightarrow> obj list \<Rightarrow> bytes \<Rightarrow> request" where
  "detection_request ident objs bytes =
     \<lparr>url = ''http://localhost:3000/objectDetect'',
      data = [(''id'', JString ident), (''detected_objects'', detected_objects_json objs)],
      image = bytes\<rparr>"

text \<open>
  \<^verbatim>\<open>detect_object(id, img)\<close>. \<^verbatim>\<open>np.array(img)\<close> is a new array holding a copy of
  the image's pixels. Unpacking the bare \<^verbatim>\<open>[]\<close> into two names raises
  \<^verbatim>\<open>ValueError\<close>. An address that holds nothing does not occur (every address comes
  from \<^const>\<open>alloc\<close>); the branch is there because the heap is a map.
\<close>

definition detect_object :: "env \<Rightarrow> string \<Rightarrow> addr \<Rightarrow> detect_locals step list" where
  "detect_object e ident img =
     [\<lambda>l w. (Inr l, print ''Detecting object'' w),
      \<lambda>l w. (case heap w img of
                None \<Rightarrow> (Inl ValueError, w)
              | Some px \<Rightarrow> (let (a, w') = alloc px w in (Inr (l\<lparr>img_np := a\<rparr>), w'))),
      \<lambda>l w. (Inr l, print ''Converted image'' w),
      \<lambda>l w. (case predict_object e (img_np l) w of
                (Inl err, w') \<Rightarrow> (Inl err, w')
              | (Inr EmptyList, w') \<Rightarrow> (Inl ValueError, w')
              | (Inr (Pair objs a), w') \<Rightarrow>
                  (Inr (l\<lparr>detected_objects := objs, annotated_image := a\<rparr>), w')),
      \<lambda>l w. (Inr l, print ''Predicted objects'' w),
      \<lambda>l w. (case heap w (annotated_image l) of
                None \<Rightarrow> (Inl ValueError, w)
              | Some px \<Rightarrow> (let (a, w') = alloc px w in (Inr (l\<lparr>new_img := a\<rparr>), w'))),
      \<lambda>l w. (case save_jpeg e (new_img l) w of
                Inl err \<Rightarrow> (Inl err, w)
              | Inr b \<Rightarrow> (Inr (l\<lparr>image_bytes := b\<rparr>), w)),
      \<lambda>l w. (Inr l, print ''Sending object detection'' w),
      \<lambda>l w. (case requests_post e
                     (detection_request ident (detected_objects l) (image_bytes l)) w of
                (Inl err, w') \<Rightarrow> (Inl err, w')
              | (Inr status, w') \<Rightarrow> (Inr (l\<lparr>response_status := status\<rparr>), w')),
      \<lambda>l w. (Inr l, print (''Response Status: '' @ str (int (response_status l))) w),
      \<lambda>l w. (Inr l, print ''Done'' w)]"

section \<open>The executor\<close>

text \<open>
  \<^verbatim>\<open>with ThreadPoolExecutor(max_workers=2) as executor\<close>: the two submitted tasks run
  on two threads, their steps interleaved in an order the program does not choose (the
  list of booleans: \<open>True\<close> lets the first task take the next step; when the list is
  used up the first task goes first; when one task has ended every turn is the
  other's). A task that raises stops, and its exception is kept
  in its future. Leaving the \<^verbatim>\<open>with\<close> block is \<^verbatim>\<open>executor.shutdown(wait=True)\<close>:
  it returns when both tasks have ended, so \<open>run_pool\<close> runs until no step is left.
\<close>

definition ended :: "job \<Rightarrow> outcome \<Rightarrow> world \<Rightarrow> world" where
  "ended j out w = w\<lparr>futures := futures w @ [(j, out)]\<rparr>"

definition after_step :: "job \<Rightarrow> 'l step list \<Rightarrow> world \<Rightarrow> world" where
  "after_step j rest w = (if rest = [] then ended j Returned w else w)"

fun run_pool ::
  "bool list \<Rightarrow> job \<times> 'a \<times> 'a step list \<Rightarrow> job \<times> 'b \<times> 'b step list \<Rightarrow> world \<Rightarrow> world" where
  "run_pool sched (j1, l1, []) (j2, l2, []) w = w"
| "run_pool sched (j1, l1, s # ss) (j2, l2, []) w =
     (case s l1 w of
        (Inl err, w') \<Rightarrow> run_pool (tl sched) (j1, l1, []) (j2, l2, []) (ended j1 (Raised err) w')
      | (Inr l1', w') \<Rightarrow> run_pool (tl sched) (j1, l1', ss) (j2, l2, []) (after_step j1 ss w'))"
| "run_pool sched (j1, l1, []) (j2, l2, t # ts) w =
     (case t l2 w of
        (Inl err, w') \<Rightarrow> run_pool (tl sched) (j1, l1, []) (j2, l2, []) (ended j2 (Raised err) w')
      | (Inr l2', w') \<Rightarrow> run_pool (tl sched) (j1, l1, []) (j2, l2', ts) (after_step j2 ts w'))"
| "run_pool sched (j1, l1, s # ss) (j2, l2, t # ts) w =
     (if sched = [] \<or> hd sched
      then (case s l1 w of
              (Inl err, w') \<Rightarrow>
                run_pool (tl sched) (j1, l1, []) (j2, l2, t # ts) (ended j1 (Raised err) w')
            | (Inr l1', w') \<Rightarrow>
                run_pool (tl sched) (j1, l1', ss) (j2, l2, t # ts) (after_step j1 ss w'))
      else (case t l2 w of
              (Inl err, w') \<Rightarrow>
                run_pool (tl sched) (j1, l1, s # ss) (j2, l2, []) (ended j2 (Raised err) w')
            | (Inr l2', w') \<Rightarrow>
                run_pool (tl sched) (j1, l1, s # ss) (j2, l2', ts) (after_step j2 ts w')))"

text \<open>\<^verbatim>\<open>ThreadPoolExecutor(max_workers=2)\<close>: each request makes an executor of its own.\<close>

definition ThreadPoolExecutor :: "world \<Rightarrow> world" where
  "ThreadPoolExecutor w = w\<lparr>submitted := [], futures := []\<rparr>"

definition submit :: "job \<Rightarrow> world \<Rightarrow> world" where
  "submit j w = w\<lparr>submitted := submitted w @ [j]\<rparr>"

section \<open>main.py: the upload handler\<close>

record upload =
  filename :: string
  content :: bytes

record response =
  status_code :: nat
  body :: "(string \<times> string) list"

text \<open>\<^verbatim>\<open>os.path.join(temp_dir, name)\<close>: an absolute second part replaces the first.\<close>

definition os_path_join :: "string \<Rightarrow> string \<Rightarrow> string" where
  "os_path_join a b = (if b \<noteq> [] \<and> hd b = CHR ''/'' then b else a @ ''/'' @ b)"

definition uuid4 :: "env \<Rightarrow> world \<Rightarrow> string \<times> world" where
  "uuid4 e w = (uuid_source e (uuids_drawn w), w\<lparr>uuids_drawn := Suc (uuids_drawn w)\<rparr>)"

text \<open>\<^verbatim>\<open>Image.open(path)\<close>: a new image object with the decoded pixels of the file.\<close>

definition Image_open :: "env \<Rightarrow> string \<Rightarrow> world \<Rightarrow> (error + addr) \<times> world" where
  "Image_open e path w =
     (case files w path of
        None \<Rightarrow> (Inl FileNotFoundError, w)
      | Some b \<Rightarrow>
          (case pil_decode e b of
             None \<Rightarrow> (Inl UnidentifiedImageError, w)
           | Some px \<Rightarrow> (let (a, w') = alloc px w in (Inr a, w'))))"

definition prompt :: string where
  "prompt = ''What do you see? Keep it brief and articulate, comment specifically on things that look in motion or have likely just changed, or on things the user is looking at. Assume the image is from the user's pov.''"

text \<open>\<^verbatim>\<open>JSONResponse(content)\<close> has status 200 unless another is given.\<close>

definition JSONResponse :: "(string \<times> string) list \<Rightarrow> response" where
  "JSONResponse c = \<lparr>status_code = 200, body = c\<rparr>"

text \<open>
  \<^verbatim>\<open>create_upload_file\<close>, statement by statement. An exception no statement catches
  leaves the handler as \<open>Inl\<close>, with the state as it was when it was raised.
  Directories are not part of the state: \<^verbatim>\<open>os.makedirs\<close> and the \<^verbatim>\<open>open\<close> of line 79
  raise what the operating system answers, and a refused \<^verbatim>\<open>open\<close> ends the handler
  before an id is drawn and before anything is staged. The image that was just opened
  holds pixels and the file that was just written exists; the branches for the opposite
  are there because heap and files are maps. Leaving the
  \<^verbatim>\<open>with\<close> block is the call of \<^const>\<open>run_pool\<close>; the response is built after it.
\<close>

definition create_upload_file ::
  "env \<Rightarrow> bool list \<Rightarrow> upload \<Rightarrow> world \<Rightarrow> (error + response) \<times> world" where
  "create_upload_file e sched file w0 =
     (let w1 = print (''Uploading file: '' @ filename file) w0;
          temp_dir = ''temp''
      in case os_makedirs e temp_dir of
           Some err \<Rightarrow> (Inl err, w1)
         | None \<Rightarrow>
      (let temp_file_path = os_path_join temp_dir (filename file)
       in case os_open_wb e temp_file_path of
            Some err \<Rightarrow> (Inl err, w1)
          | None \<Rightarrow>
      (let w2 = w1\<lparr>files := (files w1)(temp_file_path \<mapsto> content file)\<rparr>;
           (uuid, w3) = uuid4 e w2
       in case Image_open e temp_file_path w3 of
            (Inl err, w4) \<Rightarrow> (Inl err, w4)
          | (Inr img, w4) \<Rightarrow>
              (case heap w4 img of
                 None \<Rightarrow> (Inl CaptionError, w4)
               | Some px \<Rightarrow>
                   (case moondream_stream e px prompt of
                      None \<Rightarrow> (Inl CaptionError, w4)
                    | Some streamer \<Rightarrow>
                        (let answer = final_answer (answer_question streamer)
                         in case files w4 temp_file_path of
                              None \<Rightarrow> (Inl FileNotFoundError, w4)
                            | Some _ \<Rightarrow>
                                (let w5 = w4\<lparr>files := (files w4)(temp_file_path := None)\<rparr>;
                                     j1 = SendAnswer uuid answer img;
                                     j2 = DetectObject uuid img;
                                     w6 = submit j2 (submit j1 (ThreadPoolExecutor w5));
                                     w7 = run_pool sched
                                            (j1, [], send_answer e uuid answer img)
                                            (j2, no_locals, detect_object e uuid img) w6
                                 in (Inr (JSONResponse
                                           [(''id'', uuid), (''caption'', answer),
                                            (''url'', ''https://7f0e-4-78-254-114.ngrok-free.app/render/'' @ uuid)]),
                                     w7))))))))"

section \<open>What the downstream service has received\<close>

definition caption_posts :: "world \<Rightarrow> request list" where
  "caption_posts w = filter (\<lambda>r. url r = ''http://localhost:3000/newTick'') (sink w)"

definition detection_posts :: "world \<Rightarrow> request list" where
  "detection_posts w = filter (\<lambda>r. url r = ''http://localhost:3000/objectDetect'') (sink w)"

text \<open>
  The caption delivery of a request, as a function of the id, the caption and the decoded
  pixels alone: the one request of \<^const>\<open>send_answer\<close> when the image encodes and the
  service is reached, nothing otherwise.
\<close>

definition caption_delivery :: "env \<Rightarrow> string \<Rightarrow> string \<Rightarrow> pixels \<Rightarrow> request list" where
  "caption_delivery e ident caption px =
     (case jpeg_encode e px of
        None \<Rightarrow> []
      | Some b \<Rightarrow>
          (case sink_post e (caption_request ident caption b) of
             None \<Rightarrow> []
           | Some status \<Rightarrow> [caption_request ident caption b]))"

section \<open>Invariants of the two tasks while the executor runs them\<close>

text \<open>
  \<open>d\<close> counts the steps a task has behind it; a task that raised has all of them
  behind it. \<open>img\<close> is the decoded image both tasks were given, \<open>px\<close> its pixels.
\<close>

definition send_inv ::
  "env \<Rightarrow> string \<Rightarrow> string \<Rightarrow> addr \<Rightarrow> pixels \<Rightarrow> world \<Rightarrow> bytes \<times> bytes step list \<Rightarrow> world \<Rightarrow> bool" where
  "send_inv e ident cap img px w0 t w =
     (\<exists>d. d \<le> 3 \<and> snd t = drop d (send_answer e ident cap img) \<and>
          (d = 2 \<longrightarrow> jpeg_encode e px = Some (fst t)) \<and>
          (if d < 3
           then caption_posts w = caption_posts w0 \<and>
                SendAnswer ident cap img \<notin> fst ` set (futures w)
           else caption_posts w = caption_posts w0 @ caption_delivery e ident cap px \<and>
                SendAnswer ident cap img \<in> fst ` set (futures w)))"

definition detect_inv ::
  "env \<Rightarrow> string \<Rightarrow> addr \<Rightarrow> world \<Rightarrow> detect_locals \<times> detect_locals step list \<Rightarrow> world \<Rightarrow> bool" where
  "detect_inv e ident img w0 t w =
     (\<exists>d. d \<le> 11 \<and> snd t = drop d (detect_object e ident img) \<and>
          (d = 2 \<or> d = 3 \<longrightarrow> img < img_np (fst t)) \<and>
          (d < 11 \<longrightarrow> DetectObject ident img \<notin> fst ` set (futures w)) \<and>
          (d = 11 \<longrightarrow> DetectObject ident img \<in> fst ` set (futures w)) \<and>
          (d \<le> 8 \<or> (\<exists>err. (DetectObject ident img, Raised err) \<in> set (futures w))
             \<longrightarrow> detection_posts w = detection_posts w0))"

definition pool_inv ::
  "env \<Rightarrow> string \<Rightarrow> string \<Rightarrow> addr \<Rightarrow> pixels \<Rightarrow> world \<Rightarrow>
   bytes \<times> bytes step list \<Rightarrow> detect_locals \<times> detect_locals step list \<Rightarrow> world \<Rightarrow> bool" where
  "pool_inv e ident cap img px w0 t1 t2 w =
     (heap w img = Some px \<and> img < next_addr w \<and> submitted w = submitted w0 \<and>
      uuids_drawn w = uuids_drawn w0 \<and> files w = files w0 \<and>
      send_inv e ident cap img px w0 t1 w \<and> detect_inv e ident img w0 t2 w)"

section \<open>A concrete process for the examples\<close>

definition coco :: "int \<rightharpoonup> string" where
  "coco = [15 \<mapsto> ''cat'', 16 \<mapsto> ''dog'']"

definition dog_dog_cat :: yolo_result where
  "dog_dog_cat =
     \<lparr>boxes = [\<lparr>cls = 16, xywh = [1, 2, 3, 4], xyxy = [0, 0, 2, 4]\<rparr>,
               \<lparr>cls = 16, xywh = [5, 6, 7, 8], xyxy = [1, 2, 9, 10]\<rparr>,
               \<lparr>cls = 15, xywh = [9, 9, 2, 2], xyxy = [8, 8, 10, 10]\<rparr>],
      names = coco\<rparr>"

definition demo_env :: env where
  "demo_env =
     \<lparr>os_makedirs = (\<lambda>d. None),
      os_open_wb = (\<lambda>p. if p = ''temp/'' then Some IsADirectoryError
                        else if p = ''temp/sub/a.jpg'' then Some FileNotFoundError
                        else None),
      uuid_source = (\<lambda>n. ''id'' @ str (int n)),
      pil_decode = (\<lambda>b. if b = [] then None else Some b),
      moondream_stream = (\<lambda>px p. Some [''a cat<'', ''END'']),
      yolo_predict = (\<lambda>px. Some [dog_dog_cat]),
      draw_box_label = (\<lambda>px b n i. px @ [i]),
      jpeg_encode = (\<lambda>px. Some (rev px)),
      sink_post = (\<lambda>r. Some 200)\<rparr>"

definition demo_world :: world where
  "demo_world =
     \<lparr>files = Map.empty, uuids_drawn = 0, heap = Map.empty, next_addr = 0,
      stdout = [], submitted = [], futures = [], sink = []\<rparr>"

definition demo_upload :: upload where
  "demo_upload = \<lparr>filename = ''a.jpg'', content = [7, 8, 9]\<rparr>"

text \<open>A lookup table that gives two class indices the same name.\<close>

definition two_dog_classes :: yolo_result where
  "two_dog_classes =
     \<lparr>boxes = [\<lparr>cls = 0, xywh = [1, 1, 2, 2], xyxy = [0, 0, 2, 2]\<rparr>,
               \<lparr>cls = 1, xywh = [5, 5, 2, 2], xyxy = [4, 4, 6, 6]\<rparr>],
      names = [0 \<mapsto> ''dog'', 1 \<mapsto> ''dog'']\<rparr>"

text \<open>An upload whose bytes the decoder refuses.\<close>

definition undecodable_upload :: upload where
  "undecodable_upload = \<lparr>filename = ''a.jpg'', content = []\<rparr>"

text \<open>The detector hands back one result with no boxes.\<close>

definition no_boxes_env :: env where
  "no_boxes_env = demo_env\<lparr>yolo_predict := (\<lambda>px. Some [\<lparr>boxes = [], names = coco\<rparr>])\<rparr>"

text \<open>The detector raises.\<close>

definition failing_detector_env :: env where
  "failing_detector_env = demo_env\<lparr>yolo_predict := (\<lambda>px. None)\<rparr>"

text \<open>The captioning model streams nothing but the pieces of its end marker.\<close>

definition silent_env :: env where
  "silent_env = demo_env\<lparr>moondream_stream := (\<lambda>px p. Some [''<'', ''END''])\<rparr>"

text \<open>A schedule that lets the detection task take all its steps first.\<close>

definition detection_first :: "bool list" where
  "detection_first =
     [False, False, False, False, False, False, False, False, False, False, False]"

text \<open>An upload whose name points into a directory that does not exist.\<close>

definition nested_upload :: upload where
  "nested_upload = \<lparr>filename = ''sub/a.jpg'', content = [7, 8, 9]\<rparr>"

section \<open>Notions used in the statements\<close>

text \<open>\<open>s\<close> ends with \<open>p\<close>.\<close>

definition ends_with :: "string \<Rightarrow> string \<Rightarrow> bool" where
  "ends_with s p = (length p \<le> length s \<and> drop (length s - length p) s = p)"


section \<open>Decimal strings\<close>

lemma digit_char_in: "d < 10 \<Longrightarrow> digit_char d \<in> set ''0123456789''"
  unfolding digit_char_def by (rule nth_mem) simp

lemma digit_char_inj: "a < 10 \<Longrightarrow> b < 10 \<Longrightarrow> digit_char a = digit_char b \<Longrightarrow> a = b"
proof -
  assume a: "a < 10" and b: "b < 10" and e: "digit_char a = digit_char b"
  have d: "distinct ''0123456789''" by simp
  have "a < length ''0123456789''" "b < length ''0123456789''" using a b by simp_all
  with d e show "a = b" unfolding digit_char_def by (simp only: nth_eq_iff_index_eq)
qed

lemma str_nat_digits: "set (str_nat n) \<subseteq> set ''0123456789''"
proof (induction n rule: str_nat.induct)
  case (1 n)
  define D where "D = set ''0123456789''"
  have dc: "\<And>d. d < 10 \<Longrightarrow> digit_char d \<in> D" unfolding D_def by (rule digit_char_in)
  show ?case
  proof (cases "n < 10")
    case True
    then have "str_nat n = [digit_char n]" by (subst str_nat.simps) simp
    with dc [OF True] show ?thesis unfolding D_def [symmetric] by simp
  next
    case False
    have "n mod 10 < 10" by simp
    then have a: "digit_char (n mod 10) \<in> D" by (rule dc)
    have b: "set (str_nat (n div 10)) \<subseteq> D" using 1 [OF False] unfolding D_def .
    have "str_nat n = str_nat (n div 10) @ [digit_char (n mod 10)]"
      using False by (subst str_nat.simps) simp
    with a b show ?thesis unfolding D_def [symmetric] by simp
  qed
qed

lemma str_nat_nonempty: "str_nat n \<noteq> []"
  by (subst str_nat.simps) simp

lemma str_nat_inj: "str_nat n = str_nat m \<Longrightarrow> n = m"
proof (induction n arbitrary: m rule: str_nat.induct)
  case (1 n)
  show ?case
  proof (cases "n < 10")
    case n: True
    show ?thesis
    proof (cases "m < 10")
      case True
      with n 1(2) show ?thesis
        by (simp add: str_nat.simps [of n] str_nat.simps [of m] digit_char_inj)
    next
      case False
      with n 1(2) show ?thesis
        using str_nat_nonempty [of "m div 10"]
        by (simp add: str_nat.simps [of n] str_nat.simps [of m])
    qed
  next
    case n: False
    show ?thesis
    proof (cases "m < 10")
      case True
      with n 1(2) show ?thesis
        using str_nat_nonempty [of "n div 10"]
        by (simp add: str_nat.simps [of n] str_nat.simps [of m])
    next
      case False
      with n 1(2) have e: "str_nat (n div 10) = str_nat (m div 10)"
        and d: "digit_char (n mod 10) = digit_char (m mod 10)"
        by (simp_all add: str_nat.simps [of n] str_nat.simps [of m])
      from 1(1) [OF n e] have "n div 10 = m div 10" .
      moreover from d have "n mod 10 = m mod 10" by (intro digit_char_inj) simp_all
      ultimately show ?thesis by (metis div_mult_mod_eq)
    qed
  qed
qed

lemma minus_not_digit: "CHR ''-'' \<notin> set (str_nat n)"
proof -
  have "CHR ''-'' \<notin> set ''0123456789''" by simp
  then show ?thesis using str_nat_digits [of n] by (rule contra_subsetD [rotated])
qed

lemma underscore_notin_str_nat: "CHR ''_'' \<notin> set (str_nat n)"
proof -
  have "CHR ''_'' \<notin> set ''0123456789''" by simp
  then show ?thesis using str_nat_digits [of n] by (rule contra_subsetD [rotated])
qed

lemma underscore_notin_str: "CHR ''_'' \<notin> set (str i)"
  by (simp add: str_def underscore_notin_str_nat)

lemma hd_str_nat: "hd (str_nat n) \<noteq> CHR ''-''"
proof
  assume "hd (str_nat n) = CHR ''-''"
  moreover have "hd (str_nat n) \<in> set (str_nat n)"
    using str_nat_nonempty [of n] by (rule hd_in_set)
  ultimately have "CHR ''-'' \<in> set (str_nat n)" by simp
  then show False using minus_not_digit [of n] by simp
qed

lemma str_inj: "str a = str b \<Longrightarrow> a = b"
proof -
  assume e: "str a = str b"
  consider "a < 0" "b < 0" | "a < 0" "\<not> b < 0" | "\<not> a < 0" "b < 0" | "\<not> a < 0" "\<not> b < 0"
    by blast
  then show "a = b"
  proof cases
    case 1
    with e have "str_nat (nat (- a)) = str_nat (nat (- b))" by (simp add: str_def)
    then have "nat (- a) = nat (- b)" by (rule str_nat_inj)
    with 1 show ?thesis by simp
  next
    case 2
    with e have "CHR ''-'' # str_nat (nat (- a)) = str_nat (nat b)" by (simp add: str_def)
    then have "hd (str_nat (nat b)) = CHR ''-''" by (metis list.sel(1))
    then show ?thesis using hd_str_nat by simp
  next
    case 3
    with e have "str_nat (nat a) = CHR ''-'' # str_nat (nat (- b))" by (simp add: str_def)
    then have "hd (str_nat (nat a)) = CHR ''-''" by simp
    then show ?thesis using hd_str_nat by simp
  next
    case 4
    with e have "str_nat (nat a) = str_nat (nat b)" by (simp add: str_def)
    then have "nat a = nat b" by (rule str_nat_inj)
    with 4 show ?thesis by simp
  qed
qed

section \<open>The labelling loop in closed form\<close>

lemma uniq_dict_of_eq:
  "uniq_dict_of xs c = (if c \<in> set xs then Some (int (count_list xs c)) else None)"
  by (simp add: uniq_dict_of_def np_unique_def Let_def map_of_zip_map)

lemma label_loop_closed:
  assumes "\<forall>d \<in> set ds. cls d \<in> dom nms \<and> cls d \<in> dom u"
  shows "label_loop nms ds u acc =
     Inr (acc @ map (\<lambda>i. (the (nms (cls (ds ! i))) @ ''_'' @
                         str (the (u (cls (ds ! i)))
                              - int (count_list (map cls (take i ds)) (cls (ds ! i)))),
                         xywh (ds ! i)))
                  [0..<length ds])"
  using assms
proof (induction ds arbitrary: u acc)
  case Nil
  then show ?case by simp
next
  case (Cons d ds)
  obtain nm where nm: "nms (cls d) = Some nm" using Cons.prems by auto
  obtain c where c: "u (cls d) = Some c" using Cons.prems by auto
  let ?u = "u(cls d \<mapsto> c - 1)"
  have pre: "\<forall>e \<in> set ds. cls e \<in> dom nms \<and> cls e \<in> dom ?u"
    using Cons.prems by auto
  have step: "\<And>i. i < length ds \<Longrightarrow>
      the (?u (cls (ds ! i))) - int (count_list (map cls (take i ds)) (cls (ds ! i)))
    = the (u (cls ((d # ds) ! Suc i)))
      - int (count_list (map cls (take (Suc i) (d # ds))) (cls ((d # ds) ! Suc i)))"
    using c by auto
  have "label_loop nms (d # ds) u acc =
        label_loop nms ds ?u (acc @ [(nm @ ''_'' @ str c, xywh d)])"
    by (simp add: nm c)
  also have "\<dots> = Inr ((acc @ [(nm @ ''_'' @ str c, xywh d)]) @
       map (\<lambda>i. (the (nms (cls (ds ! i))) @ ''_'' @
                         str (the (?u (cls (ds ! i)))
                              - int (count_list (map cls (take i ds)) (cls (ds ! i)))),
                  xywh (ds ! i)))
                  [0..<length ds])"
    by (rule Cons.IH [OF pre])
  also have "map (\<lambda>i. (the (nms (cls (ds ! i))) @ ''_'' @
                         str (the (?u (cls (ds ! i)))
                              - int (count_list (map cls (take i ds)) (cls (ds ! i)))),
                  xywh (ds ! i)))
                  [0..<length ds]
     = map (\<lambda>i. (the (nms (cls ((d # ds) ! Suc i))) @ ''_'' @
                         str (the (u (cls ((d # ds) ! Suc i)))
                              - int (count_list (map cls (take (Suc i) (d # ds)))
                                       (cls ((d # ds) ! Suc i)))),
                  xywh ((d # ds) ! Suc i)))
                  [0..<length ds]"
    using step by (intro map_cong) auto
  finally show ?case
    by (simp add: map_upt_Suc nm c del: upt_Suc)
qed

lemma label_objects_closed:
  assumes "\<forall>d \<in> set (boxes r). cls d \<in> dom (names r)"
  shows "label_objects r =
     Inr (map (\<lambda>i. (the (names r (cls (boxes r ! i))) @ ''_'' @
                      str (int (count_list (map cls (boxes r)) (cls (boxes r ! i)))
                           - int (count_list (map cls (take i (boxes r))) (cls (boxes r ! i)))),
                    xywh (boxes r ! i)))
              [0..<length (boxes r)])"
proof -
  let ?u = "uniq_dict_of (map cls (boxes r))"
  have dom: "\<forall>d \<in> set (boxes r). cls d \<in> dom (names r) \<and> cls d \<in> dom ?u"
    using assms by (auto simp: uniq_dict_of_eq)
  have val: "\<And>i. i < length (boxes r) \<Longrightarrow>
      the (?u (cls (boxes r ! i))) = int (count_list (map cls (boxes r)) (cls (boxes r ! i)))"
    by (simp add: uniq_dict_of_eq)
  have "label_objects r = label_loop (names r) (boxes r) ?u []"
    by (simp add: label_objects_def Let_def)
  also have "\<dots> = Inr ([] @ map (\<lambda>i. (the (names r (cls (boxes r ! i))) @ ''_'' @
                         str (the (?u (cls (boxes r ! i)))
                              - int (count_list (map cls (take i (boxes r))) (cls (boxes r ! i)))),
                         xywh (boxes r ! i)))
                  [0..<length (boxes r)])"
    by (rule label_loop_closed [OF dom])
  also have "map (\<lambda>i. (the (names r (cls (boxes r ! i))) @ ''_'' @
                         str (the (?u (cls (boxes r ! i)))
                              - int (count_list (map cls (take i (boxes r))) (cls (boxes r ! i)))),
                         xywh (boxes r ! i)))
                  [0..<length (boxes r)]
      = map (\<lambda>i. (the (names r (cls (boxes r ! i))) @ ''_'' @
                      str (int (count_list (map cls (boxes r)) (cls (boxes r ! i)))
                           - int (count_list (map cls (take i (boxes r))) (cls (boxes r ! i)))),
                    xywh (boxes r ! i)))
              [0..<length (boxes r)]"
    using val by (intro map_cong) auto
  finally show ?thesis by simp
qed

lemma label_loop_names:
  "label_loop nms ds u acc = Inr objs \<Longrightarrow> \<forall>d \<in> set ds. cls d \<in> dom nms"
  by (induction ds arbitrary: u acc) (auto split: option.splits)

lemma split_at_last_sep:
  assumes "a @ c # s = b @ c # t" and "c \<notin> set s" and "c \<notin> set t"
  shows "a = b \<and> s = t"
proof -
  have "takeWhile (\<lambda>x. x \<noteq> c) (rev (a @ c # s)) = rev s"
    using assms(2) by (auto simp: takeWhile_tail)
  moreover have "takeWhile (\<lambda>x. x \<noteq> c) (rev (b @ c # t)) = rev t"
    using assms(3) by (auto simp: takeWhile_tail)
  ultimately have "rev s = rev t" using assms(1) by simp
  then have "s = t" by simp
  with assms(1) show ?thesis by simp
qed

lemma count_take_less:
  assumes "i < j" and "j \<le> length xs" and "xs ! i = c"
  shows "count_list (take i xs) c < count_list (take j xs) c"
proof -
  from less_imp_Suc_add [OF assms(1)] obtain k where "j = Suc (i + k)" ..
  then have j: "j = i + Suc k" by simp
  have i: "i < length xs" using assms by simp
  have a: "take (i + Suc k) xs = take i xs @ take (Suc k) (drop i xs)"
    by (rule take_add)
  have b: "drop i xs = c # drop (Suc i) xs"
    using i assms(3) Cons_nth_drop_Suc [of i xs] by simp
  have "count_list (take (Suc k) (c # drop (Suc i) xs)) c = Suc (count_list (take k (drop (Suc i) xs)) c)"
    by simp
  then have "count_list (take (i + Suc k) xs) c
        = count_list (take i xs) c + Suc (count_list (take k (drop (Suc i) xs)) c)"
    by (simp only: a b count_list_append)
  then show ?thesis unfolding j by simp
qed

text \<open>Two positions of one frame get different labels when their classes are named differently.\<close>

lemma label_differs:
  assumes i: "i < j" and j: "j < length ds"
    and inj: "cls (ds ! i) \<noteq> cls (ds ! j) \<Longrightarrow> ni \<noteq> nj"
    and same: "cls (ds ! i) = cls (ds ! j) \<Longrightarrow> ni = nj"
  shows "ni @ ''_'' @ str (int (count_list (map cls ds) (cls (ds ! i)))
                           - int (count_list (map cls (take i ds)) (cls (ds ! i))))
       \<noteq> nj @ ''_'' @ str (int (count_list (map cls ds) (cls (ds ! j)))
                           - int (count_list (map cls (take j ds)) (cls (ds ! j))))"
    (is "ni @ ''_'' @ str ?a \<noteq> nj @ ''_'' @ str ?b")
proof
  assume eq: "ni @ ''_'' @ str ?a = nj @ ''_'' @ str ?b"
  then have "ni @ CHR ''_'' # str ?a = nj @ CHR ''_'' # str ?b" by simp
  from split_at_last_sep [OF this underscore_notin_str underscore_notin_str]
  have n: "ni = nj" and s: "str ?a = str ?b" by simp_all
  from n inj have c: "cls (ds ! i) = cls (ds ! j)" by blast
  from s have ab: "?a = ?b" by (rule str_inj)
  have "count_list (take i (map cls ds)) (cls (ds ! i))
        < count_list (take j (map cls ds)) (cls (ds ! i))"
    using i j by (intro count_take_less) simp_all
  with ab c show False by (simp add: take_map)
qed

section \<open>Labels of one frame\<close>

lemma dog_dog_cat_labels:
  "label_objects dog_dog_cat =
     Inr [(''dog_2'', [1, 2, 3, 4]), (''dog_1'', [5, 6, 7, 8]), (''cat_1'', [9, 9, 2, 2])]"
  by (simp add: label_objects_def dog_dog_cat_def coco_def uniq_dict_of_def np_unique_def
        str_def str_nat.simps digit_char_def)

text \<open>
  Claim C4. When every detected class has a name, the labelling step returns, in detector
  order, for each detection the pair of its label and its xywh box, the label being the
  class name, an underscore and the count that remains for the class: the number of
  detections of that class in the frame minus the number of them that came earlier.
\<close>

theorem labels_count_down:
  assumes "\<forall>d \<in> set (boxes r). cls d \<in> dom (names r)"
  shows "label_objects r =
     Inr (map (\<lambda>i. (the (names r (cls (boxes r ! i))) @ ''_'' @
                      str (int (count_list (map cls (boxes r)) (cls (boxes r ! i)))
                           - int (count_list (map cls (take i (boxes r))) (cls (boxes r ! i)))),
                    xywh (boxes r ! i)))
              [0..<length (boxes r)])"
  using assms by (rule label_objects_closed)

text \<open>
  The frame dog, dog, cat of the specification: every class is named, and the labels are
  \<open>dog_2\<close>, \<open>dog_1\<close>, \<open>cat_1\<close>.
\<close>

theorem labels_count_down_witness:
  "cls ` set (boxes dog_dog_cat) \<subseteq> dom (names dog_dog_cat) \<and>
   label_objects dog_dog_cat =
     Inr [(''dog_2'', [1, 2, 3, 4]), (''dog_1'', [5, 6, 7, 8]), (''cat_1'', [9, 9, 2, 2])]"
proof -
  have h: "\<forall>d \<in> set (boxes dog_dog_cat). cls d \<in> dom (names dog_dog_cat)"
    by (simp add: dog_dog_cat_def coco_def)
  have "map (\<lambda>i. (the (names dog_dog_cat (cls (boxes dog_dog_cat ! i))) @ ''_'' @
                      str (int (count_list (map cls (boxes dog_dog_cat)) (cls (boxes dog_dog_cat ! i)))
                           - int (count_list (map cls (take i (boxes dog_dog_cat)))
                                   (cls (boxes dog_dog_cat ! i)))),
                    xywh (boxes dog_dog_cat ! i)))
              [0..<length (boxes dog_dog_cat)]
      = [(''dog_2'', [1, 2, 3, 4]), (''dog_1'', [5, 6, 7, 8]), (''cat_1'', [9, 9, 2, 2])]"
    by (simp add: dog_dog_cat_def coco_def upt_conv_Cons str_def str_nat.simps digit_char_def)
  moreover from h have "cls ` set (boxes dog_dog_cat) \<subseteq> dom (names dog_dog_cat)"
    by blast
  ultimately show ?thesis using labels_count_down [OF h] by simp
qed

text \<open>
  Claim C7 as stated, for any lookup table, fails: the counts are kept per class index,
  so two class indices with the same name both get the label \<open>dog_1\<close>.
\<close>

theorem labels_clash_counterexample:
  "label_objects two_dog_classes = Inr [(''dog_1'', [1, 1, 2, 2]), (''dog_1'', [5, 5, 2, 2])] \<and>
   \<not> distinct (map fst [(''dog_1'', [1, 1, 2, 2] :: box), (''dog_1'', [5, 5, 2, 2])])"
  by (simp add: label_objects_def two_dog_classes_def uniq_dict_of_def np_unique_def
        str_def str_nat.simps digit_char_def)

text \<open>
  Claim C7, amended. In every detection result the labelling step produces for a frame
  whose lookup table gives different names to the different class indices detected, the
  labels are pairwise distinct.
\<close>

theorem labels_distinct:
  assumes res: "label_objects r = Inr objs"
    and inj: "inj_on (names r) (cls ` set (boxes r))"
  shows "distinct (map fst objs)"
proof -
  let ?ds = "boxes r"
  let ?lab = "\<lambda>i. the (names r (cls (?ds ! i))) @ ''_'' @
                      str (int (count_list (map cls ?ds) (cls (?ds ! i)))
                           - int (count_list (map cls (take i ?ds)) (cls (?ds ! i))))"
  from res have named: "\<forall>d \<in> set ?ds. cls d \<in> dom (names r)"
    unfolding label_objects_def Let_def by (rule label_loop_names)
  from label_objects_closed [OF named] res
  have objs: "map fst objs = map ?lab [0..<length ?ds]" by (auto simp: comp_def)
  have diff: "?lab i \<noteq> ?lab j" if ij: "i < j" and j: "j < length ?ds" for i j
  proof (rule label_differs [OF ij j])
    assume ne: "cls (?ds ! i) \<noteq> cls (?ds ! j)"
    have mi: "cls (?ds ! i) \<in> cls ` set ?ds" and mj: "cls (?ds ! j) \<in> cls ` set ?ds"
      using ij j by simp_all
    from inj mi mj ne have "names r (cls (?ds ! i)) \<noteq> names r (cls (?ds ! j))"
      by (auto dest: inj_onD)
    moreover have "?ds ! i \<in> set ?ds" "?ds ! j \<in> set ?ds" using ij j by simp_all
    with named have "cls (?ds ! i) \<in> dom (names r)" "cls (?ds ! j) \<in> dom (names r)"
      by blast+
    then obtain a b where
      "names r (cls (?ds ! i)) = Some a" "names r (cls (?ds ! j)) = Some b" by blast
    ultimately show "the (names r (cls (?ds ! i))) \<noteq> the (names r (cls (?ds ! j)))"
      by simp
  next
    assume "cls (?ds ! i) = cls (?ds ! j)"
    then show "the (names r (cls (?ds ! i))) = the (names r (cls (?ds ! j)))" by simp
  qed
  have "inj_on ?lab (set [0..<length ?ds])"
  proof (rule inj_onI)
    fix i j assume i: "i \<in> set [0..<length ?ds]" and j: "j \<in> set [0..<length ?ds]"
      and e: "?lab i = ?lab j"
    show "i = j"
    proof (rule ccontr)
      assume "i \<noteq> j"
      then consider "i < j" | "j < i" by linarith
      then show False
      proof cases
        case 1 with diff [of i j] j e show False by simp
      next
        case 2 with diff [of j i] i e show False by simp
      qed
    qed
  qed
  then have "distinct (map ?lab [0..<length ?ds])" by (simp add: distinct_map)
  with objs show ?thesis by simp
qed

text \<open>The frame dog, dog, cat has such a table, and its three labels differ.\<close>

theorem labels_distinct_witness:
  "label_objects dog_dog_cat =
     Inr [(''dog_2'', [1, 2, 3, 4]), (''dog_1'', [5, 6, 7, 8]), (''cat_1'', [9, 9, 2, 2])] \<and>
   inj_on (names dog_dog_cat) (cls ` set (boxes dog_dog_cat)) \<and>
   distinct (map fst [(''dog_2'', [1, 2, 3, 4] :: box), (''dog_1'', [5, 6, 7, 8]),
                      (''cat_1'', [9, 9, 2, 2])])"
proof -
  have i: "inj_on (names dog_dog_cat) (cls ` set (boxes dog_dog_cat))"
    by (simp add: dog_dog_cat_def coco_def)
  from labels_distinct [OF dog_dog_cat_labels i] dog_dog_cat_labels i show ?thesis by simp
qed

section \<open>The caption adapter\<close>

lemma re_sub_trailing_lt: "re_sub (t @ ''<'') = t"
proof (induction t)
  case Nil
  show ?case by (simp add: at_dollar_def)
next
  case (Cons c cs)
  have a: "at_dollar (cs @ ''<'') = False" by (simp add: at_dollar_def)
  have b: "(take 3 (c # cs @ ''<'') = ''END'' \<and> at_dollar (drop 3 (c # cs @ ''<''))) = False"
  proof (cases cs)
    case Nil
    then show ?thesis by simp
  next
    case (Cons d ds)
    then show ?thesis by (cases ds) (simp_all add: at_dollar_def)
  qed
  have "re_sub (c # cs @ ''<'') = c # re_sub (cs @ ''<'')"
    by (simp only: re_sub.simps a b simp_thms if_False)
  with Cons.IH show ?case by (simp only: append_Cons)
qed

lemma re_sub_trailing_END: "re_sub (t @ ''END'') = t"
proof (induction t)
  case Nil
  show ?case by (simp add: at_dollar_def)
next
  case (Cons c cs)
  have a: "at_dollar (cs @ ''END'') = False" by (simp add: at_dollar_def)
  have b: "(take 3 (c # cs @ ''END'') = ''END'' \<and> at_dollar (drop 3 (c # cs @ ''END''))) = False"
  proof (cases cs)
    case Nil
    then show ?thesis by (simp add: at_dollar_def)
  next
    case (Cons d ds)
    then show ?thesis by (cases ds) (simp_all add: at_dollar_def)
  qed
  have "re_sub (c # cs @ ''END'') = c # re_sub (cs @ ''END'')"
    by (simp only: re_sub.simps a b simp_thms if_False)
  with Cons.IH show ?case by (simp only: append_Cons)
qed

lemma dropWhile_all: "dropWhile P s = [] \<longleftrightarrow> (\<forall>x \<in> set s. P x)"
  by (rule dropWhile_eq_Nil_conv)

lemma strip_empty_iff: "strip m s = [] \<longleftrightarrow> set s \<subseteq> set m"
proof
  define P where "P = (\<lambda>c. c \<in> set m)"
  have st: "strip m s = rev (dropWhile P (rev (dropWhile P s)))"
    unfolding strip_def P_def ..
  assume e: "strip m s = []"
  then have "dropWhile P (rev (dropWhile P s)) = []"
    unfolding st by (simp only: rev_is_Nil_conv)
  then have "\<forall>x \<in> set (rev (dropWhile P s)). P x" by (simp only: dropWhile_all)
  then have all: "\<And>x. x \<in> set (dropWhile P s) \<Longrightarrow> P x" by (simp only: set_rev)
  have "dropWhile P s = []"
  proof (rule ccontr)
    assume ne: "dropWhile P s \<noteq> []"
    then have "\<not> P (hd (dropWhile P s))" by (rule hd_dropWhile)
    moreover have "hd (dropWhile P s) \<in> set (dropWhile P s)"
      using ne by (rule hd_in_set)
    then have "P (hd (dropWhile P s))" by (rule all)
    ultimately show False by (rule notE)
  qed
  then have "\<forall>x \<in> set s. P x" by (simp only: dropWhile_all)
  then show "set s \<subseteq> set m" unfolding P_def by (simp only: subset_eq)
next
  define P where "P = (\<lambda>c. c \<in> set m)"
  have st: "strip m s = rev (dropWhile P (rev (dropWhile P s)))"
    unfolding strip_def P_def ..
  assume "set s \<subseteq> set m"
  then have "\<forall>x \<in> set s. P x" unfolding P_def by (simp only: subset_eq)
  then have "dropWhile P s = []" by (simp only: dropWhile_all)
  then show "strip m s = []" unfolding st by (simp only: rev.simps dropWhile.simps append_Nil)
qed

lemma strip_hd: "strip m s \<noteq> [] \<Longrightarrow> hd (strip m s) \<notin> set m"
proof -
  assume ne: "strip m s \<noteq> []"
  let ?P = "\<lambda>c. c \<in> set m"
  define a where "a = dropWhile ?P s"
  define b where "b = dropWhile ?P (rev a)"
  define t where "t = takeWhile ?P (rev a)"
  have st: "strip m s = rev b" by (simp add: strip_def a_def b_def)
  with ne have b: "rev b \<noteq> []" by simp
  then have a: "a \<noteq> []" by (auto simp: b_def)
  have "rev a = t @ b" unfolding t_def b_def by simp
  then have "rev (rev a) = rev (t @ b)" by (rule arg_cong)
  then have "a = rev b @ rev t" by simp
  then have "hd a = hd (rev b @ rev t)" by (rule arg_cong)
  also have "\<dots> = hd (rev b)" using b by (rule hd_append2)
  finally have "hd (rev b) = hd a" by simp
  moreover have "\<not> ?P (hd a)" using a unfolding a_def by (rule hd_dropWhile)
  ultimately show ?thesis unfolding st by simp
qed

lemma strip_last: "strip m s \<noteq> [] \<Longrightarrow> last (strip m s) \<notin> set m"
proof -
  assume ne: "strip m s \<noteq> []"
  let ?P = "\<lambda>c. c \<in> set m"
  define b where "b = dropWhile ?P (rev (dropWhile ?P s))"
  have st: "strip m s = rev b" by (simp add: strip_def b_def)
  with ne have b: "b \<noteq> []" by simp
  then have "\<not> ?P (hd b)" unfolding b_def by (rule hd_dropWhile)
  moreover have "last (rev b) = hd b" using b by (simp add: last_rev)
  ultimately show ?thesis unfolding st by simp
qed

lemma strip_idem: "strip m (strip m s) = strip m s"
proof (cases "strip m s = []")
  case True
  have "strip m [] = []" unfolding strip_def by (simp only: rev.simps dropWhile.simps append_Nil)
  with True show ?thesis by (simp only:)
next
  case False
  let ?P = "\<lambda>c. c \<in> set m"
  define t where "t = strip m s"
  from False have ne: "t \<noteq> []" by (simp add: t_def)
  from False have h: "\<not> ?P (hd t)" unfolding t_def by (rule strip_hd)
  from False have l: "\<not> ?P (last t)" unfolding t_def by (rule strip_last)
  from ne h have 1: "dropWhile ?P t = t" by (cases t) simp_all
  define r where "r = rev t"
  from ne have rne: "r \<noteq> []" by (simp add: r_def)
  have "hd r = last t" using ne by (simp add: r_def hd_rev)
  with l have "\<not> ?P (hd r)" by simp
  with rne have "dropWhile ?P r = r" by (cases r) simp_all
  then have 2: "dropWhile ?P (rev t) = rev t" unfolding r_def .
  have "strip m t = t" unfolding strip_def 1 2 by simp
  then show ?thesis unfolding t_def .
qed

lemma answer_question_from_final:
  "foldl (\<lambda>buffer text. if length text > 0 then text else buffer) (strip ''<END'' buf)
     (answer_question_from buf frags)
   = strip ''<END'' (buf @ concat (map re_sub frags))"
proof (induction frags arbitrary: buf)
  case Nil
  show ?case by simp
next
  case (Cons x xs)
  define y where "y = strip ''<END'' (buf @ re_sub x)"
  define z where "z = strip ''<END'' buf"
  have keep: "(if length y > 0 then y else z) = y"
  proof (cases "y = []")
    case True
    then have "set (buf @ re_sub x) \<subseteq> set ''<END''"
      unfolding y_def by (simp only: strip_empty_iff)
    then have "set buf \<subseteq> set ''<END''" by simp
    then have "z = []" unfolding z_def by (simp only: strip_empty_iff)
    with True show ?thesis by simp
  next
    case False
    then show ?thesis by simp
  qed
  have "foldl (\<lambda>buffer text. if length text > 0 then text else buffer) z
     (answer_question_from buf (x # xs))
     = foldl (\<lambda>buffer text. if length text > 0 then text else buffer)
         (if length y > 0 then y else z) (answer_question_from (buf @ re_sub x) xs)"
    by (simp add: Let_def y_def)
  also have "\<dots> = foldl (\<lambda>buffer text. if length text > 0 then text else buffer)
         y (answer_question_from (buf @ re_sub x) xs)"
    by (simp only: keep)
  also have "\<dots> = strip ''<END'' ((buf @ re_sub x) @ concat (map re_sub xs))"
    unfolding y_def by (rule Cons.IH)
  finally show ?case unfolding z_def by simp
qed

lemma final_answer_eq:
  "final_answer (answer_question frags) = strip ''<END'' (concat (map re_sub frags))"
proof -
  have "strip ''<END'' [] = []"
    unfolding strip_def by (simp only: rev.simps dropWhile.simps append_Nil)
  with answer_question_from_final [of "[]" frags] show ?thesis
    by (simp add: final_answer_def answer_question_def)
qed

lemma strip_no_marker_ends:
  "take 4 (strip ''<END'' s) \<noteq> ''<END'' \<and>
   drop (length (strip ''<END'' s) - 4) (strip ''<END'' s) \<noteq> ''<END''"
proof (cases "strip ''<END'' s = []")
  case True
  then show ?thesis by simp
next
  case False
  define t where "t = strip ''<END'' s"
  from False have ne: "t \<noteq> []" by (simp add: t_def)
  from False have h: "hd t \<notin> set ''<END''" unfolding t_def by (rule strip_hd)
  from False have l: "last t \<notin> set ''<END''" unfolding t_def by (rule strip_last)
  have a: "take 4 t \<noteq> ''<END''"
  proof
    assume e: "take 4 t = ''<END''"
    have "hd (take 4 t) = hd t" using ne by (cases t) simp_all
    with e have "hd t = CHR ''<''" by simp
    with h show False by simp
  qed
  have b: "drop (length t - 4) t \<noteq> ''<END''"
  proof
    assume e: "drop (length t - 4) t = ''<END''"
    then have "drop (length t - 4) t \<noteq> []" by simp
    then have "last (drop (length t - 4) t) = last t" by (simp add: last_drop)
    with e have "last t = CHR ''D''" by simp
    with l show False by simp
  qed
  from a b show ?thesis unfolding t_def ..
qed

lemma re_sub_trailing_lt_nl: "re_sub (t @ ''<'' @ [CHR 0x0A]) = t @ [CHR 0x0A]"
proof (induction t)
  case Nil
  show ?case by (simp add: at_dollar_def)
next
  case (Cons c cs)
  have a: "at_dollar (cs @ ''<'' @ [CHR 0x0A]) = False" by (simp add: at_dollar_def)
  have b: "(take 3 (c # cs @ ''<'' @ [CHR 0x0A]) = ''END'' \<and>
            at_dollar (drop 3 (c # cs @ ''<'' @ [CHR 0x0A]))) = False"
  proof (cases cs)
    case Nil
    then show ?thesis by simp
  next
    case (Cons d ds)
    then show ?thesis by (cases ds) (simp_all add: at_dollar_def)
  qed
  have "re_sub (c # cs @ ''<'' @ [CHR 0x0A]) = c # re_sub (cs @ ''<'' @ [CHR 0x0A])"
    by (simp only: re_sub.simps a b simp_thms if_False)
  with Cons.IH show ?case by (simp only: append_Cons)
qed

lemma re_sub_trailing_END_nl: "re_sub (t @ ''END'' @ [CHR 0x0A]) = t @ [CHR 0x0A]"
proof (induction t)
  case Nil
  show ?case by (simp add: at_dollar_def)
next
  case (Cons c cs)
  have a: "at_dollar (cs @ ''END'' @ [CHR 0x0A]) = False" by (simp add: at_dollar_def)
  have b: "(take 3 (c # cs @ ''END'' @ [CHR 0x0A]) = ''END'' \<and>
            at_dollar (drop 3 (c # cs @ ''END'' @ [CHR 0x0A]))) = False"
  proof (cases cs)
    case Nil
    then show ?thesis by (simp add: at_dollar_def)
  next
    case (Cons d ds)
    then show ?thesis by (cases ds) (simp_all add: at_dollar_def)
  qed
  have "re_sub (c # cs @ ''END'' @ [CHR 0x0A]) = c # re_sub (cs @ ''END'' @ [CHR 0x0A])"
    by (simp only: re_sub.simps a b simp_thms if_False)
  with Cons.IH show ?case by (simp only: append_Cons)
qed

lemma ends_with_append: "ends_with (t @ p) p"
  by (simp add: ends_with_def)

lemma ends_with_Cons: "ends_with cs p \<Longrightarrow> ends_with (c # cs) p"
proof -
  assume e: "ends_with cs p"
  then have le: "length p \<le> length cs" by (simp add: ends_with_def)
  then have "Suc (length cs) - length p = Suc (length cs - length p)" by simp
  with e le show ?thesis by (simp add: ends_with_def)
qed

text \<open>A fragment that does not end in a piece of the marker is left as it is.\<close>

lemma re_sub_unchanged:
  assumes "\<not> ends_with s ''<''" and "\<not> ends_with s ''END''"
    and "\<not> ends_with s (''<'' @ [CHR 0x0A])" and "\<not> ends_with s (''END'' @ [CHR 0x0A])"
  shows "re_sub s = s"
  using assms
proof (induction s)
  case Nil
  show ?case by simp
next
  case (Cons c cs)
  have a: "(c = CHR ''<'' \<and> at_dollar cs) = False"
  proof -
    have False if "c = CHR ''<''" and "at_dollar cs"
    proof -
      from that have "c # cs = [] @ ''<'' \<or> c # cs = [] @ (''<'' @ [CHR 0x0A])"
        by (auto simp: at_dollar_def)
      then have "ends_with (c # cs) ''<'' \<or> ends_with (c # cs) (''<'' @ [CHR 0x0A])"
        using ends_with_append [of "[]"] by metis
      with Cons.prems show False by blast
    qed
    then show ?thesis by blast
  qed
  have b: "(take 3 (c # cs) = ''END'' \<and> at_dollar (drop 3 (c # cs))) = False"
  proof -
    have False if t: "take 3 (c # cs) = ''END''" and d: "at_dollar (drop 3 (c # cs))"
    proof -
      have "c # cs = take 3 (c # cs) @ drop 3 (c # cs)" by (simp only: append_take_drop_id)
      with t have "c # cs = ''END'' @ drop 3 (c # cs)" by (simp only:)
      with d have "c # cs = [] @ ''END'' \<or> c # cs = [] @ (''END'' @ [CHR 0x0A])"
        unfolding at_dollar_def by auto
      then have "ends_with (c # cs) ''END'' \<or> ends_with (c # cs) (''END'' @ [CHR 0x0A])"
        using ends_with_append [of "[]"] by metis
      with Cons.prems show False by blast
    qed
    then show ?thesis by blast
  qed
  have "re_sub cs = cs"
  proof (rule Cons.IH)
    show "\<not> ends_with cs ''<''" using Cons.prems(1) ends_with_Cons by blast
    show "\<not> ends_with cs ''END''" using Cons.prems(2) ends_with_Cons by blast
    show "\<not> ends_with cs (''<'' @ [CHR 0x0A])" using Cons.prems(3) ends_with_Cons by blast
    show "\<not> ends_with cs (''END'' @ [CHR 0x0A])" using Cons.prems(4) ends_with_Cons by blast
  qed
  moreover have "re_sub (c # cs) = c # re_sub cs"
    by (simp only: re_sub.simps a b if_False)
  ultimately show ?case by simp
qed

text \<open>Trimming changes nothing when neither end is a character to trim.\<close>

lemma strip_id:
  assumes "s = [] \<or> (hd s \<notin> set m \<and> last s \<notin> set m)"
  shows "strip m s = s"
proof (cases "s = []")
  case True
  have "strip m [] = []"
    unfolding strip_def by (simp only: rev.simps dropWhile.simps append_Nil)
  with True show ?thesis by (simp only:)
next
  case False
  let ?P = "\<lambda>c. c \<in> set m"
  from False assms have h: "\<not> ?P (hd s)" and l: "\<not> ?P (last s)" by simp_all
  from False h have 1: "dropWhile ?P s = s" by (cases s) simp_all
  define r where "r = rev s"
  from False have rne: "r \<noteq> []" by (simp add: r_def)
  have "hd r = last s" using False by (simp add: r_def hd_rev)
  with l have "\<not> ?P (hd r)" by simp
  with rne have "dropWhile ?P r = r" by (cases r) simp_all
  then have 2: "dropWhile ?P (rev s) = rev s" unfolding r_def .
  show ?thesis unfolding strip_def 1 2 by simp
qed

text \<open>
  Claim C3 as stated fails. A marker inside a fragment is not at the fragment's end, so
  the substitution leaves it and it stays in the final caption; and the final caption is
  not the untouched text: the first letter of \<open>Dogs\<close> is gone.
\<close>

theorem caption_keeps_inner_marker_counterexample:
  "final_answer (answer_question [''a <END b'']) = ''a '' @ ''<END'' @ '' b'' \<and>
   final_answer (answer_question [''Dogs run <END'']) = ''ogs run ''"
  by (simp add: final_answer_def answer_question_def strip_def at_dollar_def)

text \<open>
  Claim C3, amended. For every sequence of caption fragments: before concatenation the
  adapter takes off a fragment exactly the piece of the marker that ends it (a final
  \<open><\<close> or a final \<open>END\<close>, also when only the fragment's last newline follows it), and
  a fragment that ends in neither is left as it is, so a marker elsewhere in a fragment
  stays in the accumulated text. The final caption never begins and never ends with the
  marker \<open><END\<close>, and whenever the accumulated text (the concatenation of the cleaned
  fragments) neither begins nor ends with one of the characters of the marker, the final
  caption is that accumulated text.
\<close>

theorem caption_adapter_by_design:
  "re_sub (t @ ''<'') = t \<and> re_sub (t @ ''END'') = t \<and>
   re_sub (t @ ''<'' @ [CHR 0x0A]) = t @ [CHR 0x0A] \<and>
   re_sub (t @ ''END'' @ [CHR 0x0A]) = t @ [CHR 0x0A] \<and>
   (\<not> ends_with s ''<'' \<and> \<not> ends_with s ''END'' \<and>
    \<not> ends_with s (''<'' @ [CHR 0x0A]) \<and> \<not> ends_with s (''END'' @ [CHR 0x0A])
      \<longrightarrow> re_sub s = s) \<and>
   take 4 (final_answer (answer_question frags)) \<noteq> ''<END'' \<and>
   drop (length (final_answer (answer_question frags)) - 4)
     (final_answer (answer_question frags)) \<noteq> ''<END'' \<and>
   (concat (map re_sub frags) = [] \<or>
    (hd (concat (map re_sub frags)) \<notin> set ''<END'' \<and>
     last (concat (map re_sub frags)) \<notin> set ''<END'')
      \<longrightarrow> final_answer (answer_question frags) = concat (map re_sub frags))"
proof -
  have u: "\<not> ends_with s ''<'' \<and> \<not> ends_with s ''END'' \<and>
    \<not> ends_with s (''<'' @ [CHR 0x0A]) \<and> \<not> ends_with s (''END'' @ [CHR 0x0A])
      \<longrightarrow> re_sub s = s"
    using re_sub_unchanged [of s] by blast
  have f: "concat (map re_sub frags) = [] \<or>
    (hd (concat (map re_sub frags)) \<notin> set ''<END'' \<and>
     last (concat (map re_sub frags)) \<notin> set ''<END'')
      \<longrightarrow> final_answer (answer_question frags) = concat (map re_sub frags)"
    unfolding final_answer_eq using strip_id [of "concat (map re_sub frags)" "''<END''"]
    by blast
  have e: "take 4 (final_answer (answer_question frags)) \<noteq> ''<END'' \<and>
   drop (length (final_answer (answer_question frags)) - 4)
     (final_answer (answer_question frags)) \<noteq> ''<END''"
    unfolding final_answer_eq by (rule strip_no_marker_ends)
  from u f e show ?thesis
    by (simp only: re_sub_trailing_lt re_sub_trailing_END re_sub_trailing_lt_nl
          re_sub_trailing_END_nl simp_thms)
qed

text \<open>
  A stream whose first fragment has the marker inside and whose last fragments end in
  the pieces of the marker: the pieces at the ends are taken off, the marker inside
  stays, and the final caption is the accumulated text.
\<close>

theorem caption_adapter_by_design_witness:
  "\<not> ends_with ''a <END b'' ''<'' \<and> \<not> ends_with ''a <END b'' ''END'' \<and>
   \<not> ends_with ''a <END b'' (''<'' @ [CHR 0x0A]) \<and>
   \<not> ends_with ''a <END b'' (''END'' @ [CHR 0x0A]) \<and>
   re_sub ''a <END b'' = ''a <END b'' \<and>
   re_sub ('' now'' @ ''<'') = '' now'' \<and>
   concat (map re_sub [''a <END b'', '' now<'', ''END'']) = ''a <END b now'' \<and>
   final_answer (answer_question [''a <END b'', '' now<'', ''END'']) = ''a <END b now''"
proof -
  have h: "\<not> ends_with ''a <END b'' ''<'' \<and> \<not> ends_with ''a <END b'' ''END'' \<and>
   \<not> ends_with ''a <END b'' (''<'' @ [CHR 0x0A]) \<and>
   \<not> ends_with ''a <END b'' (''END'' @ [CHR 0x0A])"
    by (simp add: ends_with_def)
  have c: "concat (map re_sub [''a <END b'', '' now<'', ''END'']) = ''a <END b now''"
    by (simp add: at_dollar_def)
  have g: "hd ''a <END b now'' \<notin> set ''<END'' \<and> last ''a <END b now'' \<notin> set ''<END''"
    by simp
  from caption_adapter_by_design [of "'' now''" "''a <END b''" "[''a <END b'', '' now<'', ''END'']"]
    h c g
  show ?thesis by (simp only: simp_thms)
qed

section \<open>The executor under any order of the steps\<close>

lemma run_pool_invariant:
  assumes "I (snd t1) (snd t2) w"
    and "fst t1 = j1" and "fst t2 = j2"
    and s1: "\<And>l s ss u w. I (l, s # ss) u w \<Longrightarrow>
               (case s l w of
                  (Inl err, w') \<Rightarrow> I (l, []) u (ended j1 (Raised err) w')
                | (Inr l', w') \<Rightarrow> I (l', ss) u (after_step j1 ss w'))"
    and s2: "\<And>l t ts u w. I u (l, t # ts) w \<Longrightarrow>
               (case t l w of
                  (Inl err, w') \<Rightarrow> I u (l, []) (ended j2 (Raised err) w')
                | (Inr l', w') \<Rightarrow> I u (l', ts) (after_step j2 ts w'))"
  shows "\<exists>l1 l2. I (l1, []) (l2, []) (run_pool sched t1 t2 w)"
  using assms(1-3)
proof (induction sched t1 t2 w rule: run_pool.induct)
  case (1 sched j1 l1 j2 l2 w)
  then show ?case by auto
next
  case (2 sched j1' l1 s ss j2' l2 w)
  from 2(3) have I: "I (l1, s # ss) (l2, []) w" by simp
  show ?case
  proof (cases "s l1 w")
    case (Pair r w')
    show ?thesis
    proof (cases r)
      case (Inl err)
      with s1 [OF I] Pair have "I (l1, []) (l2, []) (ended j1 (Raised err) w')" by simp
      with 2(1) [OF Pair [symmetric] Inl] 2(4,5) Pair Inl show ?thesis by simp
    next
      case (Inr l1')
      with s1 [OF I] Pair have "I (l1', ss) (l2, []) (after_step j1 ss w')" by simp
      with 2(2) [OF Pair [symmetric] Inr] 2(4,5) Pair Inr show ?thesis by simp
    qed
  qed
next
  case (3 sched j1' l1 j2' l2 t ts w)
  from 3(3) have I: "I (l1, []) (l2, t # ts) w" by simp
  show ?case
  proof (cases "t l2 w")
    case (Pair r w')
    show ?thesis
    proof (cases r)
      case (Inl err)
      with s2 [OF I] Pair have "I (l1, []) (l2, []) (ended j2 (Raised err) w')" by simp
      with 3(1) [OF Pair [symmetric] Inl] 3(4,5) Pair Inl show ?thesis by simp
    next
      case (Inr l2')
      with s2 [OF I] Pair have "I (l1, []) (l2', ts) (after_step j2 ts w')" by simp
      with 3(2) [OF Pair [symmetric] Inr] 3(4,5) Pair Inr show ?thesis by simp
    qed
  qed
next
  case (4 sched j1' l1 s ss j2' l2 t ts w)
  from 4(5) have I: "I (l1, s # ss) (l2, t # ts) w" by simp
  show ?case
  proof (cases "sched = [] \<or> hd sched")
    case first: True
    show ?thesis
    proof (cases "s l1 w")
      case (Pair r w')
      show ?thesis
      proof (cases r)
        case (Inl err)
        with s1 [OF I] Pair have "I (l1, []) (l2, t # ts) (ended j1 (Raised err) w')" by simp
        with 4(1) [OF first Pair [symmetric] Inl] 4(6,7) Pair Inl first show ?thesis by simp
      next
        case (Inr l1')
        with s1 [OF I] Pair have "I (l1', ss) (l2, t # ts) (after_step j1 ss w')" by simp
        with 4(2) [OF first Pair [symmetric] Inr] 4(6,7) Pair Inr first show ?thesis by simp
      qed
    qed
  next
    case second: False
    show ?thesis
    proof (cases "t l2 w")
      case (Pair r w')
      show ?thesis
      proof (cases r)
        case (Inl err)
        with s2 [OF I] Pair have "I (l1, s # ss) (l2, []) (ended j2 (Raised err) w')" by simp
        with 4(3) [OF second Pair [symmetric] Inl] 4(6,7) Pair Inl second show ?thesis by simp
      next
        case (Inr l2')
        with s2 [OF I] Pair have "I (l1, s # ss) (l2', ts) (after_step j2 ts w')" by simp
        with 4(4) [OF second Pair [symmetric] Inr] 4(6,7) Pair Inr second show ?thesis by simp
      qed
    qed
  qed
qed

lemma print_fields:
  "heap (print l w) = heap w" "next_addr (print l w) = next_addr w"
  "sink (print l w) = sink w" "futures (print l w) = futures w"
  "submitted (print l w) = submitted w" "files (print l w) = files w"
  "uuids_drawn (print l w) = uuids_drawn w" "stdout (print l w) = stdout w @ [l]"
  by (simp_all add: print_def)

lemma ended_fields:
  "heap (ended j out w) = heap w" "next_addr (ended j out w) = next_addr w"
  "sink (ended j out w) = sink w" "futures (ended j out w) = futures w @ [(j, out)]"
  "submitted (ended j out w) = submitted w" "files (ended j out w) = files w"
  "uuids_drawn (ended j out w) = uuids_drawn w" "stdout (ended j out w) = stdout w"
  by (simp_all add: ended_def)

lemma posts_print: "caption_posts (print l w) = caption_posts w"
  "detection_posts (print l w) = detection_posts w"
  by (simp_all add: caption_posts_def detection_posts_def print_fields)

lemma posts_ended: "caption_posts (ended j out w) = caption_posts w"
  "detection_posts (ended j out w) = detection_posts w"
  by (simp_all add: caption_posts_def detection_posts_def ended_fields)

lemma send_inv_frame:
  assumes "send_inv e ident cap img px w0 t w"
    and "caption_posts w' = caption_posts w"
    and "(SendAnswer ident cap img \<in> fst ` set (futures w')) =
         (SendAnswer ident cap img \<in> fst ` set (futures w))"
  shows "send_inv e ident cap img px w0 t w'"
  using assms(1) unfolding send_inv_def assms(2) assms(3) .

lemma detect_inv_frame:
  assumes "detect_inv e ident img w0 t w"
    and "detection_posts w' = detection_posts w"
    and "\<And>out. ((DetectObject ident img, out) \<in> set (futures w')) =
         ((DetectObject ident img, out) \<in> set (futures w))"
  shows "detect_inv e ident img w0 t w'"
proof -
  have m: "(DetectObject ident img \<in> fst ` set (futures w')) =
           (DetectObject ident img \<in> fst ` set (futures w))"
    using assms(3) by (force simp: image_iff)
  show ?thesis using assms(1) unfolding detect_inv_def assms(2) m assms(3) .
qed

text \<open>What one step of the caption task does to the state.\<close>

lemma send_step:
  assumes inv: "pool_inv e ident cap img px w0 (l, s # ss) u w"
  shows "case s l w of
           (Inl err, w') \<Rightarrow>
             pool_inv e ident cap img px w0 (l, []) u (ended (SendAnswer ident cap img) (Raised err) w')
         | (Inr l', w') \<Rightarrow>
             pool_inv e ident cap img px w0 (l', ss) u (after_step (SendAnswer ident cap img) ss w')"
proof -
  let ?j = "SendAnswer ident cap img"
  from inv have hp: "heap w img = Some px" and na: "img < next_addr w"
    and sub: "submitted w = submitted w0" and uu: "uuids_drawn w = uuids_drawn w0"
    and fi: "files w = files w0"
    and di: "detect_inv e ident img w0 u w"
    and si: "send_inv e ident cap img px w0 (l, s # ss) w"
    by (simp_all add: pool_inv_def)
  from si obtain d where d: "d \<le> 3" and sd: "s # ss = drop d (send_answer e ident cap img)"
    and buf: "d = 2 \<longrightarrow> jpeg_encode e px = Some l"
    and rest: "if d < 3
           then caption_posts w = caption_posts w0 \<and> ?j \<notin> fst ` set (futures w)
           else caption_posts w = caption_posts w0 @ caption_delivery e ident cap px \<and>
                ?j \<in> fst ` set (futures w)"
    unfolding send_inv_def by auto
  have "d \<noteq> 3" using sd by (auto simp: send_answer_def)
  with d consider "d = 0" | "d = 1" | "d = 2" by linarith
  then show ?thesis
  proof cases
    case 1
    with sd have s: "s = (\<lambda>bytes_buffer w.
        (Inr bytes_buffer, print (''Sending caption for ID '' @ ident @ '': '' @ cap) w))"
      and ss: "ss = drop 1 (send_answer e ident cap img)"
      by (simp_all add: send_answer_def)
    let ?w = "print (''Sending caption for ID '' @ ident @ '': '' @ cap) w"
    have "send_inv e ident cap img px w0 (l, ss) ?w"
      unfolding send_inv_def using rest 1 ss
      by (intro exI [of _ 1]) (simp add: posts_print print_fields)
    moreover have "detect_inv e ident img w0 u ?w"
      by (rule detect_inv_frame [OF di]) (simp_all add: posts_print print_fields)
    moreover have "ss \<noteq> []" using ss by (simp add: send_answer_def)
    ultimately show ?thesis
      using hp na sub uu fi by (simp add: s pool_inv_def after_step_def print_fields)
  next
    case 2
    with sd have s: "s = (\<lambda>bytes_buffer w.
        (case save_jpeg e img w of
           Inl err \<Rightarrow> (Inl err, w)
         | Inr b \<Rightarrow> (Inr b, w)))"
      and ss: "ss = drop 2 (send_answer e ident cap img)"
      by (simp_all add: send_answer_def)
    have ne: "ss \<noteq> []" using ss by (simp add: send_answer_def)
    show ?thesis
    proof (cases "jpeg_encode e px")
      case None
      then have sv: "save_jpeg e img w = Inl SaveError" by (simp add: save_jpeg_def hp)
      have cd: "caption_delivery e ident cap px = []" by (simp add: caption_delivery_def None)
      have "send_inv e ident cap img px w0 (l, []) (ended ?j (Raised SaveError) w)"
        unfolding send_inv_def using rest 2 cd
        by (intro exI [of _ 3]) (simp add: posts_ended ended_fields send_answer_def)
      moreover have "detect_inv e ident img w0 u (ended ?j (Raised SaveError) w)"
        by (rule detect_inv_frame [OF di]) (simp_all add: posts_ended ended_fields)
      ultimately show ?thesis
        using hp na sub uu fi by (simp add: s sv pool_inv_def ended_fields)
    next
      case (Some b)
      then have sv: "save_jpeg e img w = Inr b" by (simp add: save_jpeg_def hp)
      have "send_inv e ident cap img px w0 (b, ss) w"
        unfolding send_inv_def using rest 2 ss Some
        by (intro exI [of _ 2]) simp
      with di show ?thesis
        using hp na sub uu fi ne by (simp add: s sv pool_inv_def after_step_def)
    qed
  next
    case 3
    with sd have s: "s = (\<lambda>bytes_buffer w.
        (case requests_post e (caption_request ident cap bytes_buffer) w of
           (Inl err, w') \<Rightarrow> (Inl err, w')
         | (Inr status, w') \<Rightarrow> (Inr bytes_buffer, w')))"
      and ss: "ss = []"
      by (simp_all add: send_answer_def)
    from buf 3 have jp: "jpeg_encode e px = Some l" by simp
    show ?thesis
    proof (cases "sink_post e (caption_request ident cap l)")
      case None
      then have rp: "requests_post e (caption_request ident cap l) w = (Inl ConnectionError, w)"
        by (simp add: requests_post_def)
      have cd: "caption_delivery e ident cap px = []"
        by (simp add: caption_delivery_def jp None)
      have "send_inv e ident cap img px w0 (l, []) (ended ?j (Raised ConnectionError) w)"
        unfolding send_inv_def using rest 3 cd
        by (intro exI [of _ 3]) (simp add: posts_ended ended_fields send_answer_def)
      moreover have "detect_inv e ident img w0 u (ended ?j (Raised ConnectionError) w)"
        by (rule detect_inv_frame [OF di]) (simp_all add: posts_ended ended_fields)
      ultimately show ?thesis
        using hp na sub uu fi by (simp add: s rp pool_inv_def ended_fields)
    next
      case (Some status)
      let ?w = "w\<lparr>sink := sink w @ [caption_request ident cap l]\<rparr>"
      from Some have rp: "requests_post e (caption_request ident cap l) w = (Inr status, ?w)"
        by (simp add: requests_post_def)
      have cd: "caption_delivery e ident cap px = [caption_request ident cap l]"
        by (simp add: caption_delivery_def jp Some)
      have cp: "caption_posts ?w = caption_posts w @ [caption_request ident cap l]"
        by (simp add: caption_posts_def caption_request_def)
      have dp: "detection_posts ?w = detection_posts w"
        by (simp add: detection_posts_def caption_request_def)
      have "send_inv e ident cap img px w0 (l, []) (ended ?j Returned ?w)"
        unfolding send_inv_def using rest 3 cd cp
        by (intro exI [of _ 3]) (simp add: posts_ended ended_fields send_answer_def)
      moreover have "detect_inv e ident img w0 u (ended ?j Returned ?w)"
        by (rule detect_inv_frame [OF di]) (simp_all add: posts_ended ended_fields dp)
      ultimately show ?thesis
        using hp na sub uu fi by (simp add: s ss rp pool_inv_def after_step_def ended_fields)
    qed
  qed
qed

lemma predict_object_frame:
  assumes "predict_object e a w = (r, w')" and "a \<noteq> img"
  shows "heap w' img = heap w img \<and> next_addr w' = next_addr w \<and> sink w' = sink w \<and>
         futures w' = futures w \<and> submitted w' = submitted w \<and>
         uuids_drawn w' = uuids_drawn w \<and> files w' = files w"
  using assms
  by (auto simp: predict_object_def Let_def print_fields
           split: option.splits list.splits sum.splits)

lemma alloc_frame:
  assumes "alloc px' w = (a, w')"
  shows "a = next_addr w \<and> next_addr w' = Suc (next_addr w) \<and> sink w' = sink w \<and>
         futures w' = futures w \<and> submitted w' = submitted w \<and>
         uuids_drawn w' = uuids_drawn w \<and> files w' = files w \<and>
         (\<forall>b. b < next_addr w \<longrightarrow> heap w' b = heap w b)"
  using assms by (auto simp: alloc_def)

lemma pool_inv_detect_update:
  assumes "pool_inv e ident cap img px w0 u t w"
    and "heap w' img = heap w img" and "next_addr w \<le> next_addr w'"
    and "caption_posts w' = caption_posts w" and "submitted w' = submitted w"
    and "uuids_drawn w' = uuids_drawn w" and "files w' = files w"
    and "(SendAnswer ident cap img \<in> fst ` set (futures w')) =
         (SendAnswer ident cap img \<in> fst ` set (futures w))"
    and "detect_inv e ident img w0 t' w'"
  shows "pool_inv e ident cap img px w0 u t' w'"
proof -
  from assms(1) have "send_inv e ident cap img px w0 u w" by (simp add: pool_inv_def)
  then have "send_inv e ident cap img px w0 u w'"
    by (rule send_inv_frame) (fact assms(4), fact assms(8))
  with assms show ?thesis by (simp add: pool_inv_def)
qed

lemma detect_invI:
  assumes "d \<le> 11" and "ts = drop d (detect_object e ident img)"
    and "d = 2 \<or> d = 3 \<longrightarrow> img < img_np l"
    and "d < 11 \<longrightarrow> DetectObject ident img \<notin> fst ` set (futures w)"
    and "d = 11 \<longrightarrow> DetectObject ident img \<in> fst ` set (futures w)"
    and "d \<le> 8 \<or> (\<exists>err. (DetectObject ident img, Raised err) \<in> set (futures w))
             \<longrightarrow> detection_posts w = detection_posts w0"
  shows "detect_inv e ident img w0 (l, ts) w"
  unfolding detect_inv_def using assms by (intro exI [of _ d]) simp

text \<open>A detection step that raises before the request went out.\<close>

lemma detect_raise:
  assumes inv: "pool_inv e ident cap img px w0 u (l, ts) w"
    and notin: "DetectObject ident img \<notin> fst ` set (futures w)"
    and dp: "detection_posts w = detection_posts w0"
    and fr: "heap w' img = heap w img" "next_addr w \<le> next_addr w'" "sink w' = sink w"
            "futures w' = futures w" "submitted w' = submitted w"
            "uuids_drawn w' = uuids_drawn w" "files w' = files w"
  shows "pool_inv e ident cap img px w0 u (l', []) (ended (DetectObject ident img) (Raised err) w')"
proof (rule pool_inv_detect_update [OF inv])
  let ?w = "ended (DetectObject ident img) (Raised err) w'"
  show "detect_inv e ident img w0 (l', []) ?w"
  proof (rule detect_invI [of 11])
    show "[] = drop 11 (detect_object e ident img)" by (simp add: detect_object_def)
    have "detection_posts ?w = detection_posts w"
      by (simp add: detection_posts_def ended_fields fr)
    then show "(11::nat) \<le> 8 \<or> (\<exists>err. (DetectObject ident img, Raised err) \<in> set (futures ?w))
        \<longrightarrow> detection_posts ?w = detection_posts w0" using dp by simp
  qed (simp_all add: ended_fields)
qed (simp_all add: ended_fields fr caption_posts_def)

text \<open>A detection step that goes through and is not the last.\<close>

lemma detect_advance:
  assumes inv: "pool_inv e ident cap img px w0 u (l, t # ts) w"
    and d: "d < 10" and ts: "ts = drop (Suc d) (detect_object e ident img)"
    and np: "Suc d = 2 \<or> Suc d = 3 \<longrightarrow> img < img_np l'"
    and notin: "DetectObject ident img \<notin> fst ` set (futures w)"
    and dp: "Suc d \<le> 8 \<longrightarrow> detection_posts w' = detection_posts w0"
    and fr: "heap w' img = heap w img" "next_addr w \<le> next_addr w'"
            "caption_posts w' = caption_posts w"
            "futures w' = futures w" "submitted w' = submitted w"
            "uuids_drawn w' = uuids_drawn w" "files w' = files w"
  shows "pool_inv e ident cap img px w0 u (l', ts) (after_step (DetectObject ident img) ts w')"
proof -
  have ne: "ts \<noteq> []" using d ts by (simp add: detect_object_def)
  then have as: "after_step (DetectObject ident img) ts w' = w'" by (simp add: after_step_def)
  have no: "\<And>err. (DetectObject ident img, Raised err) \<notin> set (futures w)"
    using notin by force
  show ?thesis unfolding as
  proof (rule pool_inv_detect_update [OF inv])
    show "detect_inv e ident img w0 (l', ts) w'"
    proof (rule detect_invI [of "Suc d"])
      show "Suc d \<le> 11" using d by simp
      show "ts = drop (Suc d) (detect_object e ident img)" by fact
      show "Suc d = 2 \<or> Suc d = 3 \<longrightarrow> img < img_np l'" by fact
      show "Suc d < 11 \<longrightarrow> DetectObject ident img \<notin> fst ` set (futures w')"
        using notin by (simp add: fr)
      show "Suc d = 11 \<longrightarrow> DetectObject ident img \<in> fst ` set (futures w')"
        using d by simp
      show "Suc d \<le> 8 \<or> (\<exists>err. (DetectObject ident img, Raised err) \<in> set (futures w'))
        \<longrightarrow> detection_posts w' = detection_posts w0"
        using dp no by (simp add: fr)
    qed
  qed (simp_all add: fr)
qed

text \<open>The last detection step.\<close>

lemma detect_finish:
  assumes inv: "pool_inv e ident cap img px w0 u (l, t # ts) w"
    and notin: "DetectObject ident img \<notin> fst ` set (futures w)"
    and fr: "heap w' img = heap w img" "next_addr w \<le> next_addr w'"
            "caption_posts w' = caption_posts w"
            "futures w' = futures w" "submitted w' = submitted w"
            "uuids_drawn w' = uuids_drawn w" "files w' = files w"
  shows "pool_inv e ident cap img px w0 u (l', []) (after_step (DetectObject ident img) [] w')"
proof -
  let ?w = "ended (DetectObject ident img) Returned w'"
  have as: "after_step (DetectObject ident img) [] w' = ?w" by (simp add: after_step_def)
  have no: "\<And>err. (DetectObject ident img, Raised err) \<notin> set (futures w)"
    using notin by force
  show ?thesis unfolding as
  proof (rule pool_inv_detect_update [OF inv])
    show "detect_inv e ident img w0 (l', []) ?w"
    proof (rule detect_invI [of 11])
      show "[] = drop 11 (detect_object e ident img)" by (simp add: detect_object_def)
      show "(11::nat) \<le> 8 \<or> (\<exists>err. (DetectObject ident img, Raised err) \<in> set (futures ?w))
        \<longrightarrow> detection_posts ?w = detection_posts w0"
        using no by (simp add: ended_fields fr)
    qed (simp_all add: ended_fields)
  qed (simp_all add: ended_fields posts_ended fr)
qed

lemma detect_step:
  assumes inv: "pool_inv e ident cap img px w0 u (l, t # ts) w"
  shows "case t l w of
           (Inl err, w') \<Rightarrow>
             pool_inv e ident cap img px w0 u (l, []) (ended (DetectObject ident img) (Raised err) w')
         | (Inr l', w') \<Rightarrow>
             pool_inv e ident cap img px w0 u (l', ts) (after_step (DetectObject ident img) ts w')"
proof -
  let ?j = "DetectObject ident img"
  from inv have hp: "heap w img = Some px" and na: "img < next_addr w"
    and di: "detect_inv e ident img w0 (l, t # ts) w"
    by (simp_all add: pool_inv_def)
  from di obtain d where d: "d \<le> 11" and td: "t # ts = drop d (detect_object e ident img)"
    and np: "d = 2 \<or> d = 3 \<longrightarrow> img < img_np l"
    and n1: "d < 11 \<longrightarrow> ?j \<notin> fst ` set (futures w)"
    and dp0: "d \<le> 8 \<longrightarrow> detection_posts w = detection_posts w0"
    unfolding detect_inv_def by auto
  have "d \<noteq> 11" using td by (auto simp: detect_object_def)
  with d n1 have notin: "?j \<notin> fst ` set (futures w)" and d10: "d \<le> 10" by simp_all
  note adv = detect_advance [OF inv _ _ _ notin]
  note rai = detect_raise [OF inv notin]
  from d10 consider "d = 0" | "d = 1" | "d = 2" | "d = 3" | "d = 4" | "d = 5" | "d = 6"
    | "d = 7" | "d = 8" | "d = 9" | "d = 10" by atomize_elim arith
  then show ?thesis
  proof cases
    case 1
    with td have t: "t = (\<lambda>l w. (Inr l, print ''Detecting object'' w))"
      and ts: "ts = drop (Suc 0) (detect_object e ident img)"
      by (simp_all add: detect_object_def)
    show ?thesis unfolding t using dp0 1
      by (simp, intro adv [of 0]) (simp_all add: ts print_fields posts_print)
  next
    case 2
    with td have t: "t = (\<lambda>l w. (case heap w img of
                None \<Rightarrow> (Inl ValueError, w)
              | Some px \<Rightarrow> (let (a, w') = alloc px w in (Inr (l\<lparr>img_np := a\<rparr>), w'))))"
      and ts: "ts = drop (Suc 1) (detect_object e ident img)"
      by (simp_all add: detect_object_def)
    show ?thesis unfolding t using dp0 2 hp na
      by (simp add: alloc_def, intro adv [of 1])
         (simp_all add: ts caption_posts_def detection_posts_def)
  next
    case 3
    with td have t: "t = (\<lambda>l w. (Inr l, print ''Converted image'' w))"
      and ts: "ts = drop (Suc 2) (detect_object e ident img)"
      by (simp_all add: detect_object_def)
    show ?thesis unfolding t using dp0 3 np
      by (simp, intro adv [of 2]) (simp_all add: ts print_fields posts_print)
  next
    case 4
    with td have t: "t = (\<lambda>l w. (case predict_object e (img_np l) w of
                (Inl err, w') \<Rightarrow> (Inl err, w')
              | (Inr EmptyList, w') \<Rightarrow> (Inl ValueError, w')
              | (Inr (Pair objs a), w') \<Rightarrow>
                  (Inr (l\<lparr>detected_objects := objs, annotated_image := a\<rparr>), w')))"
      and ts: "ts = drop (Suc 3) (detect_object e ident img)"
      by (simp_all add: detect_object_def)
    obtain r w' where po: "predict_object e (img_np l) w = (r, w')" by (cases "predict_object e (img_np l) w")
    from np 4 have "img_np l \<noteq> img" by simp
    from predict_object_frame [OF po this]
    have fr: "heap w' img = heap w img" "next_addr w' = next_addr w" "sink w' = sink w"
         "futures w' = futures w" "submitted w' = submitted w"
         "uuids_drawn w' = uuids_drawn w" "files w' = files w" by simp_all
    from dp0 4 have dp: "detection_posts w = detection_posts w0" by simp
    show ?thesis
    proof (cases r)
      case (Inl err)
      show ?thesis unfolding t using po Inl
        by (simp, intro rai [OF dp]) (simp_all add: fr)
    next
      case (Inr p)
      show ?thesis
      proof (cases p)
        case EmptyList
        show ?thesis unfolding t using po Inr EmptyList
          by (simp, intro rai [OF dp]) (simp_all add: fr)
      next
        case (Pair objs a)
        show ?thesis unfolding t using po Inr Pair dp
          by (simp, intro adv [of 3])
             (simp_all add: ts fr caption_posts_def detection_posts_def)
      qed
    qed
  next
    case 5
    with td have t: "t = (\<lambda>l w. (Inr l, print ''Predicted objects'' w))"
      and ts: "ts = drop (Suc 4) (detect_object e ident img)"
      by (simp_all add: detect_object_def)
    show ?thesis unfolding t using dp0 5
      by (simp, intro adv [of 4]) (simp_all add: ts print_fields posts_print)
  next
    case 6
    with td have t: "t = (\<lambda>l w. (case heap w (annotated_image l) of
                None \<Rightarrow> (Inl ValueError, w)
              | Some px \<Rightarrow> (let (a, w') = alloc px w in (Inr (l\<lparr>new_img := a\<rparr>), w'))))"
      and ts: "ts = drop (Suc 5) (detect_object e ident img)"
      by (simp_all add: detect_object_def)
    from dp0 6 have dp: "detection_posts w = detection_posts w0" by simp
    show ?thesis
    proof (cases "heap w (annotated_image l)")
      case None
      show ?thesis unfolding t using None
        by (simp, intro rai [OF dp]) simp_all
    next
      case (Some px')
      show ?thesis unfolding t using Some dp na
        by (simp add: alloc_def, intro adv [of 5])
           (simp_all add: ts caption_posts_def detection_posts_def)
    qed
  next
    case 7
    with td have t: "t = (\<lambda>l w. (case save_jpeg e (new_img l) w of
                Inl err \<Rightarrow> (Inl err, w)
              | Inr b \<Rightarrow> (Inr (l\<lparr>image_bytes := b\<rparr>), w)))"
      and ts: "ts = drop (Suc 6) (detect_object e ident img)"
      by (simp_all add: detect_object_def)
    from dp0 7 have dp: "detection_posts w = detection_posts w0" by simp
    show ?thesis
    proof (cases "save_jpeg e (new_img l) w")
      case (Inl err)
      show ?thesis unfolding t using Inl
        by (simp, intro rai [OF dp]) simp_all
    next
      case (Inr b)
      show ?thesis unfolding t using Inr dp
        by (simp, intro adv [of 6]) (simp_all add: ts)
    qed
  next
    case 8
    with td have t: "t = (\<lambda>l w. (Inr l, print ''Sending object detection'' w))"
      and ts: "ts = drop (Suc 7) (detect_object e ident img)"
      by (simp_all add: detect_object_def)
    show ?thesis unfolding t using dp0 8
      by (simp, intro adv [of 7]) (simp_all add: ts print_fields posts_print)
  next
    case 9
    with td have t: "t = (\<lambda>l w. (case requests_post e
                     (detection_request ident (detected_objects l) (image_bytes l)) w of
                (Inl err, w') \<Rightarrow> (Inl err, w')
              | (Inr status, w') \<Rightarrow> (Inr (l\<lparr>response_status := status\<rparr>), w')))"
      and ts: "ts = drop (Suc 8) (detect_object e ident img)"
      by (simp_all add: detect_object_def)
    from dp0 9 have dp: "detection_posts w = detection_posts w0" by simp
    show ?thesis
    proof (cases "sink_post e (detection_request ident (detected_objects l) (image_bytes l))")
      case None
      show ?thesis unfolding t using None
        by (simp add: requests_post_def, intro rai [OF dp]) simp_all
    next
      case (Some status)
      show ?thesis unfolding t using Some
        by (simp add: requests_post_def, intro adv [of 8])
           (simp_all add: ts caption_posts_def detection_request_def)
    qed
  next
    case 10
    with td have t: "t = (\<lambda>l w. (Inr l, print (''Response Status: '' @ str (int (response_status l))) w))"
      and ts: "ts = drop (Suc 9) (detect_object e ident img)"
      by (simp_all add: detect_object_def)
    show ?thesis unfolding t
      by (simp, intro adv [of 9]) (simp_all add: ts print_fields posts_print)
  next
    case 11
    with td have t: "t = (\<lambda>l w. (Inr l, print ''Done'' w))"
      and ts: "ts = []"
      by (simp_all add: detect_object_def)
    show ?thesis unfolding t ts
      by (simp, intro detect_finish [OF inv notin]) (simp_all add: print_fields posts_print)
  qed
qed

lemma handler_reaches_pool:
  assumes mk: "os_makedirs e ''temp'' = None"
    and op: "os_open_wb e (os_path_join ''temp'' (filename file)) = None"
    and dec: "pil_decode e (content file) = Some px"
    and stream: "moondream_stream e px prompt = Some streamer"
  shows "\<exists>w6. create_upload_file e sched file w0 =
           (Inr (JSONResponse
                  [(''id'', uuid_source e (uuids_drawn w0)),
                   (''caption'', final_answer (answer_question streamer)),
                   (''url'', ''https://7f0e-4-78-254-114.ngrok-free.app/render/'' @
                            uuid_source e (uuids_drawn w0))]),
            run_pool sched
              (SendAnswer (uuid_source e (uuids_drawn w0))
                          (final_answer (answer_question streamer)) (next_addr w0), [],
               send_answer e (uuid_source e (uuids_drawn w0))
                          (final_answer (answer_question streamer)) (next_addr w0))
              (DetectObject (uuid_source e (uuids_drawn w0)) (next_addr w0), no_locals,
               detect_object e (uuid_source e (uuids_drawn w0)) (next_addr w0)) w6) \<and>
         heap w6 (next_addr w0) = Some px \<and> next_addr w0 < next_addr w6 \<and>
         futures w6 = [] \<and> sink w6 = sink w0 \<and>
         submitted w6 =
           [SendAnswer (uuid_source e (uuids_drawn w0))
                       (final_answer (answer_question streamer)) (next_addr w0),
            DetectObject (uuid_source e (uuids_drawn w0)) (next_addr w0)] \<and>
         uuids_drawn w6 = Suc (uuids_drawn w0) \<and>
         files w6 = (files w0)(os_path_join ''temp'' (filename file) := None)"
  using mk op dec stream
  apply (simp add: create_upload_file_def Let_def uuid4_def Image_open_def alloc_def
        print_def submit_def ThreadPoolExecutor_def)
  apply (rule exI, rule conjI, rule refl)
  apply simp
  done

lemma send_inv_start:
  assumes "futures w = []"
  shows "send_inv e ident cap img px w ([], send_answer e ident cap img) w"
  unfolding send_inv_def using assms by (intro exI [of _ 0]) simp

lemma detect_inv_start:
  assumes "futures w = []"
  shows "detect_inv e ident img w (no_locals, detect_object e ident img) w"
  unfolding detect_inv_def using assms by (intro exI [of _ 0]) simp

lemma send_inv_end:
  assumes "send_inv e ident cap img px w0 (l, []) w"
  shows "caption_posts w = caption_posts w0 @ caption_delivery e ident cap px \<and>
         SendAnswer ident cap img \<in> fst ` set (futures w)"
proof -
  from assms obtain d where d: "d \<le> 3" and e: "[] = drop d (send_answer e ident cap img)"
    and r: "if d < 3
           then caption_posts w = caption_posts w0 \<and>
                SendAnswer ident cap img \<notin> fst ` set (futures w)
           else caption_posts w = caption_posts w0 @ caption_delivery e ident cap px \<and>
                SendAnswer ident cap img \<in> fst ` set (futures w)"
    unfolding send_inv_def by auto
  from e have "\<not> d < 3" by (simp add: send_answer_def)
  with r show ?thesis by simp
qed

lemma detect_inv_end:
  assumes "detect_inv e ident img w0 (l, []) w"
  shows "DetectObject ident img \<in> fst ` set (futures w) \<and>
         ((\<exists>err. (DetectObject ident img, Raised err) \<in> set (futures w))
             \<longrightarrow> detection_posts w = detection_posts w0)"
proof -
  from assms obtain d where d: "d \<le> 11" and e: "[] = drop d (detect_object e ident img)"
    and r: "d = 11 \<longrightarrow> DetectObject ident img \<in> fst ` set (futures w)"
       "d \<le> 8 \<or> (\<exists>err. (DetectObject ident img, Raised err) \<in> set (futures w))
             \<longrightarrow> detection_posts w = detection_posts w0"
    unfolding detect_inv_def by auto
  from e have "\<not> d < 11" by (simp add: detect_object_def)
  with d have "d = 11" by simp
  with r show ?thesis by simp
qed

text \<open>
  Whatever order the executor runs the steps in: when the pool is left, both tasks have
  ended, the decoded image holds the pixels it was decoded to, the caption delivery is
  the one of \<^const>\<open>caption_delivery\<close>, and a detection task that raised has sent nothing.
\<close>

lemma pool_result:
  assumes h: "heap w img = Some px" and n: "img < next_addr w" and f: "futures w = []"
  shows "\<exists>w'. run_pool sched (SendAnswer ident cap img, [], send_answer e ident cap img)
                 (DetectObject ident img, no_locals, detect_object e ident img) w = w' \<and>
          heap w' img = Some px \<and> submitted w' = submitted w \<and>
          uuids_drawn w' = uuids_drawn w \<and> files w' = files w \<and>
          caption_posts w' = caption_posts w @ caption_delivery e ident cap px \<and>
          SendAnswer ident cap img \<in> fst ` set (futures w') \<and>
          DetectObject ident img \<in> fst ` set (futures w') \<and>
          ((\<exists>err. (DetectObject ident img, Raised err) \<in> set (futures w'))
             \<longrightarrow> detection_posts w' = detection_posts w)"
proof -
  let ?t1 = "(SendAnswer ident cap img, [] :: bytes, send_answer e ident cap img)"
  let ?t2 = "(DetectObject ident img, no_locals, detect_object e ident img)"
  have init: "pool_inv e ident cap img px w (snd ?t1) (snd ?t2) w"
    using h n by (simp add: pool_inv_def send_inv_start [OF f] detect_inv_start [OF f])
  have "\<exists>l1 l2. pool_inv e ident cap img px w (l1, []) (l2, []) (run_pool sched ?t1 ?t2 w)"
    by (rule run_pool_invariant [where I = "pool_inv e ident cap img px w", OF init])
       (simp, simp, rule send_step, assumption, rule detect_step, assumption)
  then obtain l1 l2 where
    fin: "pool_inv e ident cap img px w (l1, []) (l2, []) (run_pool sched ?t1 ?t2 w)" by blast
  let ?w = "run_pool sched ?t1 ?t2 w"
  from fin have g: "heap ?w img = Some px" "submitted ?w = submitted w"
      "uuids_drawn ?w = uuids_drawn w" "files ?w = files w"
    and s: "send_inv e ident cap img px w (l1, []) ?w"
    and d: "detect_inv e ident img w (l2, []) ?w"
    by (simp_all add: pool_inv_def)
  from g send_inv_end [OF s] detect_inv_end [OF d] show ?thesis by simp
qed

section \<open>The handler as a whole\<close>

lemma handler_result:
  assumes mk: "os_makedirs e ''temp'' = None"
    and op: "os_open_wb e (os_path_join ''temp'' (filename file)) = None"
    and dec: "pil_decode e (content file) = Some px"
    and stream: "moondream_stream e px prompt = Some streamer"
    and run: "create_upload_file e sched file w0 = (r, w')"
  shows "r = Inr (JSONResponse
                  [(''id'', uuid_source e (uuids_drawn w0)),
                   (''caption'', final_answer (answer_question streamer)),
                   (''url'', ''https://7f0e-4-78-254-114.ngrok-free.app/render/'' @
                            uuid_source e (uuids_drawn w0))])"
    and "heap w' (next_addr w0) = Some px"
    and "submitted w' =
           [SendAnswer (uuid_source e (uuids_drawn w0))
                       (final_answer (answer_question streamer)) (next_addr w0),
            DetectObject (uuid_source e (uuids_drawn w0)) (next_addr w0)]"
    and "uuids_drawn w' = Suc (uuids_drawn w0)"
    and "caption_posts w' = caption_posts w0 @
           caption_delivery e (uuid_source e (uuids_drawn w0))
             (final_answer (answer_question streamer)) px"
    and "SendAnswer (uuid_source e (uuids_drawn w0))
           (final_answer (answer_question streamer)) (next_addr w0) \<in> fst ` set (futures w')"
    and "DetectObject (uuid_source e (uuids_drawn w0)) (next_addr w0) \<in> fst ` set (futures w')"
    and "(\<exists>err. (DetectObject (uuid_source e (uuids_drawn w0)) (next_addr w0), Raised err)
              \<in> set (futures w')) \<longrightarrow> detection_posts w' = detection_posts w0"
proof -
  let ?u = "uuid_source e (uuids_drawn w0)"
  let ?a = "final_answer (answer_question streamer)"
  let ?img = "next_addr w0"
  from handler_reaches_pool [OF mk op dec stream, of sched w0] obtain w6 where
    eq: "create_upload_file e sched file w0 =
           (Inr (JSONResponse [(''id'', ?u), (''caption'', ?a),
                   (''url'', ''https://7f0e-4-78-254-114.ngrok-free.app/render/'' @ ?u)]),
            run_pool sched (SendAnswer ?u ?a ?img, [], send_answer e ?u ?a ?img)
              (DetectObject ?u ?img, no_locals, detect_object e ?u ?img) w6)"
    and h: "heap w6 ?img = Some px" and n: "?img < next_addr w6" and f: "futures w6 = []"
    and s: "sink w6 = sink w0"
    and sub: "submitted w6 = [SendAnswer ?u ?a ?img, DetectObject ?u ?img]"
    and uu: "uuids_drawn w6 = Suc (uuids_drawn w0)"
    by blast
  from eq run have r: "r = Inr (JSONResponse [(''id'', ?u), (''caption'', ?a),
                   (''url'', ''https://7f0e-4-78-254-114.ngrok-free.app/render/'' @ ?u)])"
    and w': "w' = run_pool sched (SendAnswer ?u ?a ?img, [], send_answer e ?u ?a ?img)
              (DetectObject ?u ?img, no_locals, detect_object e ?u ?img) w6"
    by simp_all
  from s have cp: "caption_posts w6 = caption_posts w0"
    and dp: "detection_posts w6 = detection_posts w0"
    by (simp_all add: caption_posts_def detection_posts_def)
  from pool_result [OF h n f, of sched ?u ?a e]
  have res: "heap w' ?img = Some px" "submitted w' = submitted w6"
      "uuids_drawn w' = uuids_drawn w6"
      "caption_posts w' = caption_posts w6 @ caption_delivery e ?u ?a px"
      "SendAnswer ?u ?a ?img \<in> fst ` set (futures w')"
      "DetectObject ?u ?img \<in> fst ` set (futures w')"
      "(\<exists>err. (DetectObject ?u ?img, Raised err) \<in> set (futures w'))
             \<longrightarrow> detection_posts w' = detection_posts w6"
    unfolding w' by simp_all
  show "r = Inr (JSONResponse [(''id'', ?u), (''caption'', ?a),
                   (''url'', ''https://7f0e-4-78-254-114.ngrok-free.app/render/'' @ ?u)])"
    by (rule r)
  show "heap w' ?img = Some px" by (rule res)
  show "submitted w' = [SendAnswer ?u ?a ?img, DetectObject ?u ?img]"
    using res(2) sub by simp
  show "uuids_drawn w' = Suc (uuids_drawn w0)" using res(3) uu by simp
  show "caption_posts w' = caption_posts w0 @ caption_delivery e ?u ?a px"
    using res(4) cp by simp
  show "SendAnswer ?u ?a ?img \<in> fst ` set (futures w')" by (rule res)
  show "DetectObject ?u ?img \<in> fst ` set (futures w')" by (rule res)
  show "(\<exists>err. (DetectObject ?u ?img, Raised err) \<in> set (futures w'))
             \<longrightarrow> detection_posts w' = detection_posts w0"
    using res(7) dp by simp
qed

lemma handler_decode_failure:
  assumes "os_makedirs e ''temp'' = None"
    and "os_open_wb e (os_path_join ''temp'' (filename file)) = None"
    and "pil_decode e (content file) = None"
  shows "create_upload_file e sched file w0 =
     (Inl UnidentifiedImageError,
      w0\<lparr>stdout := stdout w0 @ [''Uploading file: '' @ filename file],
         files := (files w0)(os_path_join ''temp'' (filename file) \<mapsto> content file),
         uuids_drawn := Suc (uuids_drawn w0)\<rparr>)"
  using assms
  by (simp add: create_upload_file_def Let_def uuid4_def Image_open_def print_def)

lemma handler_only_success_shape:
  assumes "fst (create_upload_file e sched file w0) = Inr r"
  shows "\<exists>caption. r = JSONResponse
                  [(''id'', uuid_source e (uuids_drawn w0)), (''caption'', caption),
                   (''url'', ''https://7f0e-4-78-254-114.ngrok-free.app/render/'' @
                            uuid_source e (uuids_drawn w0))]"
  using assms
  by (auto simp: create_upload_file_def Let_def uuid4_def Image_open_def alloc_def print_def
           split: option.splits)

text \<open>
  A name that points into a missing directory: the \<^verbatim>\<open>open\<close> of line 79 is refused, and
  the handler ends there, with no id drawn, nothing staged and nothing submitted.
\<close>

lemma staging_refused_example:
  "create_upload_file demo_env [] nested_upload demo_world =
     (Inl FileNotFoundError, demo_world\<lparr>stdout := [''Uploading file: sub/a.jpg'']\<rparr>)"
  by (simp add: create_upload_file_def Let_def print_def os_path_join_def
        demo_env_def nested_upload_def demo_world_def)



section \<open>A frame with no boxes\<close>











lemmas run_defs = create_upload_file_def Let_def uuid4_def Image_open_def alloc_def
  print_def submit_def ThreadPoolExecutor_def os_path_join_def JSONResponse_def
  final_answer_def answer_question_def strip_def at_dollar_def
  send_answer_def detect_object_def no_locals_def predict_object_def save_jpeg_def
  requests_post_def caption_request_def detection_request_def detected_objects_json_def
  ended_def after_step_def annotate_def label_objects_def uniq_dict_of_def np_unique_def
  str_def str_nat.simps digit_char_def caption_posts_def detection_posts_def
  caption_delivery_def

lemmas demo_defs = demo_env_def demo_upload_def demo_world_def dog_dog_cat_def coco_def
  undecodable_upload_def nested_upload_def no_boxes_env_def
  failing_detector_env_def silent_env_def detection_first_def

lemma demo_makedirs: "os_makedirs demo_env ''temp'' = None"
  by (simp add: demo_defs)

lemma demo_open: "os_open_wb demo_env (os_path_join ''temp'' (filename demo_upload)) = None"
  by (simp add: demo_defs os_path_join_def)

lemma demo_decodes: "pil_decode demo_env (content demo_upload) = Some [7, 8, 9]"
  by (simp add: demo_defs)

lemma demo_streams: "moondream_stream demo_env [7, 8, 9] prompt = Some [''a cat<'', ''END'']"
  by (simp add: demo_defs)

lemma demo_answer: "final_answer (answer_question [''a cat<'', ''END'']) = ''a cat''"
  by (simp add: run_defs)

lemma demo_id: "uuid_source demo_env (uuids_drawn demo_world) = ''id0''"
  by (simp add: demo_defs run_defs)

lemma demo_delivery:
  "caption_posts demo_world @ caption_delivery demo_env ''id0'' ''a cat'' [7, 8, 9]
   = [caption_request ''id0'' ''a cat'' [9, 8, 7]]"
  by (simp add: demo_defs run_defs)

text \<open>
  Claim C1 fails on the code. The two tasks are submitted inside a \<^verbatim>\<open>with\<close> block,
  and leaving the block waits for both. On the example upload, in whatever order the
  executor runs the steps, the state in which the handler returns its response already
  has both tasks ended and the caption delivered; with the first task scheduled first,
  both requests have reached the service.
\<close>

theorem response_waits_for_both_tasks:
  "(\<forall>sched.
      SendAnswer ''id0'' ''a cat'' 0
        \<in> fst ` set (futures (snd (create_upload_file demo_env sched demo_upload demo_world))) \<and>
      DetectObject ''id0'' 0
        \<in> fst ` set (futures (snd (create_upload_file demo_env sched demo_upload demo_world))) \<and>
      caption_posts (snd (create_upload_file demo_env sched demo_upload demo_world))
        = [caption_request ''id0'' ''a cat'' [9, 8, 7]]) \<and>
   futures (snd (create_upload_file demo_env [] demo_upload demo_world))
     = [(SendAnswer ''id0'' ''a cat'' 0, Returned), (DetectObject ''id0'' 0, Returned)] \<and>
   map url (sink (snd (create_upload_file demo_env [] demo_upload demo_world)))
     = [''http://localhost:3000/newTick'', ''http://localhost:3000/objectDetect'']"
proof -
  have all: "SendAnswer ''id0'' ''a cat'' 0
        \<in> fst ` set (futures (snd (create_upload_file demo_env sched demo_upload demo_world))) \<and>
      DetectObject ''id0'' 0
        \<in> fst ` set (futures (snd (create_upload_file demo_env sched demo_upload demo_world))) \<and>
      caption_posts (snd (create_upload_file demo_env sched demo_upload demo_world))
        = [caption_request ''id0'' ''a cat'' [9, 8, 7]]" for sched
  proof -
    have run: "create_upload_file demo_env sched demo_upload demo_world =
      (fst (create_upload_file demo_env sched demo_upload demo_world),
       snd (create_upload_file demo_env sched demo_upload demo_world))" by simp
    have n: "next_addr demo_world = 0" by (simp add: demo_world_def)
    from handler_result(5,6,7) [OF demo_makedirs demo_open demo_decodes demo_streams run]
    show ?thesis by (simp only: demo_id demo_answer demo_delivery n simp_thms)
  qed
  have "futures (snd (create_upload_file demo_env [] demo_upload demo_world))
     = [(SendAnswer ''id0'' ''a cat'' 0, Returned), (DetectObject ''id0'' 0, Returned)]"
    by (simp add: run_defs demo_defs)
  moreover have "map url (sink (snd (create_upload_file demo_env [] demo_upload demo_world)))
     = [''http://localhost:3000/newTick'', ''http://localhost:3000/objectDetect'']"
    by (simp add: run_defs demo_defs)
  ultimately show ?thesis using all by blast
qed

text \<open>
  Claim C2 as stated fails: the id is drawn (line 82) before the image is opened
  (line 84), and nothing in the handler turns the decoder's exception into an error
  response; it leaves the handler as an exception.
\<close>

theorem undecodable_upload_counterexample:
  "pil_decode demo_env (content undecodable_upload) = None \<and>
   uuids_drawn demo_world = 0 \<and>
   uuids_drawn (snd (create_upload_file demo_env [] undecodable_upload demo_world)) = 1 \<and>
   fst (create_upload_file demo_env [] undecodable_upload demo_world)
     = Inl UnidentifiedImageError"
  by (simp add: run_defs demo_defs)

text \<open>
  Claim C2, amended. For every uploaded payload that has been staged (the directory and
  the temporary file could be written) and does not decode, the handler ends with the
  decoder's exception, which nothing in it catches, and returns no response of its own;
  by then it has drawn one id, which it has not passed on; it has submitted no task and
  nothing has been sent to the downstream service.
\<close>

theorem undecodable_upload_fails:
  assumes "os_makedirs e ''temp'' = None"
    and "os_open_wb e (os_path_join ''temp'' (filename file)) = None"
    and "pil_decode e (content file) = None"
  shows "fst (create_upload_file e sched file w0) = Inl UnidentifiedImageError \<and>
         uuids_drawn (snd (create_upload_file e sched file w0)) = Suc (uuids_drawn w0) \<and>
         submitted (snd (create_upload_file e sched file w0)) = submitted w0 \<and>
         futures (snd (create_upload_file e sched file w0)) = futures w0 \<and>
         sink (snd (create_upload_file e sched file w0)) = sink w0"
  by (simp add: handler_decode_failure [OF assms])

theorem undecodable_upload_fails_witness:
  "os_makedirs demo_env ''temp'' = None \<and>
   os_open_wb demo_env (os_path_join ''temp'' (filename undecodable_upload)) = None \<and>
   pil_decode demo_env (content undecodable_upload) = None \<and>
   fst (create_upload_file demo_env [] undecodable_upload demo_world)
     = Inl UnidentifiedImageError \<and>
   uuids_drawn (snd (create_upload_file demo_env [] undecodable_upload demo_world)) = 1 \<and>
   submitted (snd (create_upload_file demo_env [] undecodable_upload demo_world)) = [] \<and>
   sink (snd (create_upload_file demo_env [] undecodable_upload demo_world)) = []"
proof -
  have o: "os_open_wb demo_env (os_path_join ''temp'' (filename undecodable_upload)) = None"
    by (simp add: demo_defs os_path_join_def)
  have h: "pil_decode demo_env (content undecodable_upload) = None"
    by (simp add: demo_defs)
  have "submitted demo_world = []" "sink demo_world = []" "uuids_drawn demo_world = 0"
    by (simp_all add: demo_defs)
  then show ?thesis
    using undecodable_upload_fails [OF demo_makedirs o h, of "[]" demo_world]
      demo_makedirs o h by simp
qed



text \<open>
  Claim C6 as stated fails in one point: a failure of the detection task is not logged.
  With a detector that raises, the exception ends up in the task's future and the lines
  printed are the progress lines up to the call, none about the failure.
\<close>

theorem detection_failure_not_logged_counterexample:
  "futures (snd (create_upload_file failing_detector_env [] demo_upload demo_world))
     = [(SendAnswer ''id0'' ''a cat'' 0, Returned),
        (DetectObject ''id0'' 0, Raised DetectorError)] \<and>
   stdout (snd (create_upload_file failing_detector_env [] demo_upload demo_world))
     = [''Uploading file: a.jpg'', ''Sending caption for ID id0: a cat'',
        ''Detecting object'', ''Converted image'', ''predicting object'']"
  by (simp add: run_defs demo_defs)

text \<open>
  Claim C6, amended. For every request that has been staged, decoded and captioned and
  whose detection task raises (in the detector call or in the delivery), in whatever
  order the executor runs the steps: the exception
  stays in the task's future, no detection delivery is sent, the handler still returns
  its response, and the caption delivery for the same id is the one fixed by the id, the
  caption and the decoded image alone.
\<close>

theorem detection_failure_isolated:
  assumes mk: "os_makedirs e ''temp'' = None"
    and op: "os_open_wb e (os_path_join ''temp'' (filename file)) = None"
    and dec: "pil_decode e (content file) = Some px"
    and stream: "moondream_stream e px prompt = Some streamer"
    and raised: "(DetectObject (uuid_source e (uuids_drawn w0)) (next_addr w0), Raised err)
                   \<in> set (futures (snd (create_upload_file e sched file w0)))"
  shows "fst (create_upload_file e sched file w0) =
           Inr (JSONResponse
                  [(''id'', uuid_source e (uuids_drawn w0)),
                   (''caption'', final_answer (answer_question streamer)),
                   (''url'', ''https://7f0e-4-78-254-114.ngrok-free.app/render/'' @
                            uuid_source e (uuids_drawn w0))]) \<and>
         detection_posts (snd (create_upload_file e sched file w0)) = detection_posts w0 \<and>
         caption_posts (snd (create_upload_file e sched file w0)) =
           caption_posts w0 @
           caption_delivery e (uuid_source e (uuids_drawn w0))
             (final_answer (answer_question streamer)) px"
proof -
  have run: "create_upload_file e sched file w0 =
      (fst (create_upload_file e sched file w0), snd (create_upload_file e sched file w0))"
    by simp
  from handler_result(8) [OF mk op dec stream run] raised
  have "detection_posts (snd (create_upload_file e sched file w0)) = detection_posts w0"
    by blast
  with handler_result(1,5) [OF mk op dec stream run] show ?thesis by simp
qed

theorem detection_failure_isolated_witness:
  "(DetectObject ''id0'' 0, Raised DetectorError)
     \<in> set (futures (snd (create_upload_file failing_detector_env [] demo_upload demo_world))) \<and>
   fst (create_upload_file failing_detector_env [] demo_upload demo_world) =
     Inr (JSONResponse [(''id'', ''id0''), (''caption'', ''a cat''),
            (''url'', ''https://7f0e-4-78-254-114.ngrok-free.app/render/id0'')]) \<and>
   detection_posts (snd (create_upload_file failing_detector_env [] demo_upload demo_world)) = [] \<and>
   caption_posts (snd (create_upload_file failing_detector_env [] demo_upload demo_world))
     = [caption_request ''id0'' ''a cat'' [9, 8, 7]]"
proof -
  have mk: "os_makedirs failing_detector_env ''temp'' = None" by (simp add: demo_defs)
  have op: "os_open_wb failing_detector_env (os_path_join ''temp'' (filename demo_upload))
      = None"
    by (simp add: demo_defs os_path_join_def)
  have dec: "pil_decode failing_detector_env (content demo_upload) = Some [7, 8, 9]"
    by (simp add: demo_defs)
  have stream: "moondream_stream failing_detector_env [7, 8, 9] prompt = Some [''a cat<'', ''END'']"
    by (simp add: demo_defs)
  have ident: "uuid_source failing_detector_env (uuids_drawn demo_world) = ''id0''"
    by (simp add: demo_defs run_defs)
  have n: "next_addr demo_world = 0" by (simp add: demo_defs)
  have raised: "(DetectObject (uuid_source failing_detector_env (uuids_drawn demo_world))
                   (next_addr demo_world), Raised DetectorError)
     \<in> set (futures (snd (create_upload_file failing_detector_env [] demo_upload demo_world)))"
    by (simp add: run_defs demo_defs)
  have dp: "detection_posts demo_world = []" by (simp add: demo_defs detection_posts_def)
  have cd: "caption_posts demo_world @
      caption_delivery failing_detector_env ''id0'' ''a cat'' [7, 8, 9]
      = [caption_request ''id0'' ''a cat'' [9, 8, 7]]"
    by (simp add: demo_defs run_defs)
  from detection_failure_isolated [OF mk op dec stream raised] raised
  show ?thesis by (simp add: ident n demo_answer dp cd)
qed



text \<open>
  Claim C9 as stated fails: the body has a third field, \<open>url\<close>.
\<close>

theorem response_fields_counterexample:
  "fst (create_upload_file demo_env [] demo_upload demo_world) =
     Inr \<lparr>status_code = 200,
          body = [(''id'', ''id0''), (''caption'', ''a cat''),
                  (''url'', ''https://7f0e-4-78-254-114.ngrok-free.app/render/id0'')]\<rparr> \<and>
   map fst [(''id'', ''id0''), (''caption'', ''a cat''),
            (''url'', ''https://7f0e-4-78-254-114.ngrok-free.app/render/id0'')]
     \<noteq> [''id'', ''caption'']"
  by (simp add: run_defs demo_defs)

text \<open>
  Claim C9, amended. For every successful upload the response has status 200 and its
  body is the object with exactly the three fields \<open>id\<close>, \<open>caption\<close> and \<open>url\<close>, the
  url being the fixed render address followed by the id.
\<close>

theorem response_has_three_fields:
  assumes "fst (create_upload_file e sched file w0) = Inr r"
  shows "status_code r = 200 \<and>
         (\<exists>caption. body r =
            [(''id'', uuid_source e (uuids_drawn w0)), (''caption'', caption),
             (''url'', ''https://7f0e-4-78-254-114.ngrok-free.app/render/'' @
                      uuid_source e (uuids_drawn w0))])"
  using handler_only_success_shape [OF assms] by (auto simp: JSONResponse_def)

theorem response_has_three_fields_witness:
  "fst (create_upload_file demo_env [] demo_upload demo_world) =
     Inr (JSONResponse [(''id'', ''id0''), (''caption'', ''a cat''),
            (''url'', ''https://7f0e-4-78-254-114.ngrok-free.app/render/id0'')]) \<and>
   status_code (JSONResponse [(''id'', ''id0''), (''caption'', ''a cat''),
            (''url'', ''https://7f0e-4-78-254-114.ngrok-free.app/render/id0'')]) = 200"
proof -
  have h: "fst (create_upload_file demo_env [] demo_upload demo_world) =
     Inr (JSONResponse [(''id'', ''id0''), (''caption'', ''a cat''),
            (''url'', ''https://7f0e-4-78-254-114.ngrok-free.app/render/id0'')])"
    by (simp add: run_defs demo_defs)
  from response_has_three_fields [OF h] h show ?thesis by simp
qed



end
